theory Spec2Isabelle
  imports Main "HOL-Library.Word"
begin

section \<open>Byte slices\<close>

text \<open>
  A Go \<^verbatim>\<open>[]byte\<close> is a list of bytes or the nil slice. The source tests slices against
  nil (\<^verbatim>\<open>key == nil\<close>, \<^verbatim>\<open>a.root.key == nil\<close>, \<^verbatim>\<open>prefix == nil\<close>), so nil is kept apart
  from the empty non-nil slice: \<open>None\<close> is nil, \<open>Some []\<close> is \<^verbatim>\<open>[]byte{}\<close>.
\<close>

type_synonym byte = "8 word"
type_synonym bytes = "byte list option"

text \<open>\<^verbatim>\<open>len(b)\<close>: the nil slice has length 0.\<close>

fun blen :: "bytes \<Rightarrow> nat" where
  "blen None = 0"
| "blen (Some xs) = length xs"

text \<open>The content of a slice; \<^verbatim>\<open>bytes.Equal\<close> compares contents, nil equal to empty.\<close>

fun bval :: "bytes \<Rightarrow> byte list" where
  "bval None = []"
| "bval (Some xs) = xs"

definition bytesEqual :: "bytes \<Rightarrow> bytes \<Rightarrow> bool" where
  "bytesEqual a b = (bval a = bval b)"

text \<open>
  \<^verbatim>\<open>b[n:]\<close>. Slicing nil gives nil, slicing a non-nil slice gives a non-nil slice. Every
  use in the source has \<open>n \<le> len(b)\<close> (\<open>n\<close> is the length of a common prefix of \<open>b\<close>, or
  is guarded by a length comparison), so the out-of-range panic of Go does not arise.
\<close>

fun sliceFrom :: "nat \<Rightarrow> bytes \<Rightarrow> bytes" where
  "sliceFrom n None = None"
| "sliceFrom n (Some xs) = Some (drop n xs)"

text \<open>\<^verbatim>\<open>bytes.Compare(a, b) < 0\<close>: lexicographic order on unsigned bytes.\<close>

fun bytesLess :: "byte list \<Rightarrow> byte list \<Rightarrow> bool" where
  "bytesLess [] [] = False"
| "bytesLess [] (y # ys) = True"
| "bytesLess (x # xs) [] = False"
| "bytesLess (x # xs) (y # ys) = (if x = y then bytesLess xs ys else x < y)"

text \<open>The loop of \<^verbatim>\<open>longestCommonPrefix\<close>: the index of the first mismatch.\<close>

fun lcpLen :: "byte list \<Rightarrow> byte list \<Rightarrow> nat" where
  "lcpLen (x # xs) (y # ys) = (if x = y then Suc (lcpLen xs ys) else 0)"
| "lcpLen [] ys = 0"
| "lcpLen (x # xs) [] = 0"

text \<open>\<^verbatim>\<open>longestCommonPrefix(a, b)\<close>: nil when there is no common prefix, else \<^verbatim>\<open>a[:i]\<close>.\<close>

definition longestCommonPrefix :: "bytes \<Rightarrow> bytes \<Rightarrow> bytes" where
  "longestCommonPrefix a b =
     (let i = lcpLen (bval a) (bval b) in
      if i = 0 then None else Some (take i (bval a)))"

section \<open>Errors and limits\<close>

text \<open>
  The error values of \<^verbatim>\<open>arc.go\<close>, the invalid-checksum error of the serialization layer,
  and \<open>Panic\<close> for a Go run-time panic (a nil pointer dereference).
\<close>

datatype error =
    ErrCorrupted
  | ErrKeyNotFound
  | ErrKeyTooLarge
  | ErrNilKey
  | ErrValueTooLarge
  | ErrInvalidChecksum
  | Panic

definition maxKeyBytes :: nat where
  "maxKeyBytes = 2 ^ 16 - 1"

definition maxValueBytes :: nat where
  "maxValueBytes = 2 ^ 32 - 1"

text \<open>
  Modelled from the spec: the constant \<^verbatim>\<open>inlineValueThreshold\<close> is not declared in the
  given sources; the spec and the comment on \<^verbatim>\<open>node.data\<close> both give 32 bytes.
\<close>

definition inlineValueThreshold :: nat where
  "inlineValueThreshold = 32"

section \<open>The blob store\<close>

text \<open>
  Modelled from the spec: the blob store (\<^verbatim>\<open>blobStore\<close>, with \<^verbatim>\<open>put\<close>, \<^verbatim>\<open>get\<close>,
  \<^verbatim>\<open>release\<close> and \<^verbatim>\<open>makeBlobID\<close>) is used by \<^verbatim>\<open>node.go\<close> and exercised by
  \<^verbatim>\<open>blob_test.go\<close>, but its source file is not among the given sources. It is a mapping
  from a blobID to an entry of value bytes and reference count. The content hash
  \<^verbatim>\<open>makeBlobID\<close> is not determined by the spec and is a parameter \<open>mkID\<close> of
  every function that needs it.
\<close>

record blob =
  bvalue :: "byte list"
  refCount :: int

type_synonym blobID = "byte list"
type_synonym blobStore = "blobID \<rightharpoonup> blob"

text \<open>
  Modelled from the spec: \<^verbatim>\<open>put(value)\<close> computes the content hash; if an entry with
  that ID exists it increments the reference count, otherwise it inserts an entry with
  reference count 1; it returns the ID.
\<close>

definition put :: "(byte list \<Rightarrow> blobID) \<Rightarrow> blobStore \<Rightarrow> byte list \<Rightarrow> blobID \<times> blobStore" where
  "put mkID bs v =
     (let i = mkID v in
      case bs i of
        Some b \<Rightarrow> (i, bs(i \<mapsto> b\<lparr>refCount := refCount b + 1\<rparr>))
      | None \<Rightarrow> (i, bs(i \<mapsto> \<lparr>bvalue = v, refCount = 1\<rparr>)))"

text \<open>Modelled from the spec: \<^verbatim>\<open>get(blobID)\<close> returns the stored bytes, absent if unknown.\<close>

definition get :: "blobStore \<Rightarrow> blobID \<Rightarrow> bytes" where
  "get bs i = map_option bvalue (bs i)"

text \<open>
  Modelled from the spec: \<^verbatim>\<open>release(blobID)\<close> decrements the reference count if the
  entry is present and removes the entry at zero; an unknown ID is ignored.
\<close>

definition release :: "blobStore \<Rightarrow> blobID \<Rightarrow> blobStore" where
  "release bs i =
     (case bs i of
        None \<Rightarrow> bs
      | Some b \<Rightarrow>
          (if refCount b - 1 = 0 then bs(i := None)
           else bs(i \<mapsto> b\<lparr>refCount := refCount b - 1\<rparr>)))"

text \<open>
  \<^verbatim>\<open>put\<close> called \<open>n\<close> times with one value, as the loops of \<^verbatim>\<open>blob_test.go\<close> do: the
  IDs returned, in order, and the store at the end.
\<close>

fun putTimes :: "(byte list \<Rightarrow> blobID) \<Rightarrow> nat \<Rightarrow> blobStore \<Rightarrow> byte list \<Rightarrow> blobID list \<times> blobStore" where
  "putTimes mkID 0 bs v = ([], bs)"
| "putTimes mkID (Suc n) bs v =
     (let r = put mkID bs v; rs = putTimes mkID n (snd r) v
      in (fst r # fst rs, snd rs))"

text \<open>The stores that arise: any sequence of \<^verbatim>\<open>put\<close> and \<^verbatim>\<open>release\<close> on the empty store.\<close>

datatype blobOp = OpPut "byte list" | OpRelease blobID

fun applyOps :: "(byte list \<Rightarrow> blobID) \<Rightarrow> blobOp list \<Rightarrow> blobStore \<Rightarrow> blobStore" where
  "applyOps mkID [] bs = bs"
| "applyOps mkID (OpPut v # ops) bs = applyOps mkID ops (snd (put mkID bs v))"
| "applyOps mkID (OpRelease i # ops) bs = applyOps mkID ops (release bs i)"

text \<open>The reference count of an ID, 0 for an ID that has no entry.\<close>

definition countOf :: "blobStore \<Rightarrow> blobID \<Rightarrow> int" where
  "countOf bs i = (case bs i of None \<Rightarrow> 0 | Some b \<Rightarrow> refCount b)"

definition countsPositive :: "blobStore \<Rightarrow> bool" where
  "countsPositive bs = (\<forall>i b. bs i = Some b \<longrightarrow> 1 \<le> refCount b)"

section \<open>Nodes\<close>

text \<open>
  The struct \<^verbatim>\<open>node\<close> of \<^verbatim>\<open>node.go\<close>. A node exclusively owns its children, so the
  linked list \<^verbatim>\<open>firstChild\<close>, \<^verbatim>\<open>nextSibling\<close>, \<^verbatim>\<open>nextSibling\<close>, ... of a node is the list
  \<open>children\<close>: \<^verbatim>\<open>firstChild == nil\<close> is \<open>children n = []\<close>. The cached count
  \<^verbatim>\<open>numChildren\<close> stays a field of its own.
\<close>

datatype node = Node
  (key: bytes)
  (isRecord: bool)
  (blobValue: bool)
  (numChildren: int)
  (children: "node list")
  (data: bytes)

text \<open>\<^verbatim>\<open>&node{}\<close> and \<^verbatim>\<open>&node{key: k}\<close>.\<close>

definition emptyNode :: node where
  "emptyNode = Node None False False 0 [] None"

definition keyNode :: "bytes \<Rightarrow> node" where
  "keyNode k = Node k False False 0 [] None"

fun hasChildren :: "node \<Rightarrow> bool" where
  "hasChildren n = (children n \<noteq> [])"

fun isLeaf :: "node \<Rightarrow> bool" where
  "isLeaf n = (children n = [])"

fun setKey :: "node \<Rightarrow> bytes \<Rightarrow> node" where
  "setKey (Node k r b nc cs d) k' = Node k' r b nc cs d"

text \<open>
  \<^verbatim>\<open>setValue(bs, value)\<close>: releases the blob the node held, stores the value inline when
  it is at most \<^verbatim>\<open>inlineValueThreshold\<close> bytes long and in the blob store otherwise
  (\<^verbatim>\<open>id.Slice()\<close> is a non-nil slice), and flags the node as a record.
\<close>

fun setValue :: "(byte list \<Rightarrow> blobID) \<Rightarrow> blobStore \<Rightarrow> node \<Rightarrow> bytes \<Rightarrow> node \<times> blobStore" where
  "setValue mkID bs (Node k r b nc cs d) v =
     (let bs1 = (if b then release bs (bval d) else bs) in
      if blen v \<le> inlineValueThreshold then (Node k True False nc cs v, bs1)
      else (case put mkID bs1 (bval v) of (i, bs2) \<Rightarrow> (Node k True True nc cs (Some i), bs2)))"

text \<open>\<^verbatim>\<open>value(bs)\<close>: a copy of the inline bytes, or the blob the data refers to.\<close>

fun nodeValue :: "blobStore \<Rightarrow> node \<Rightarrow> bytes" where
  "nodeValue bs (Node k r b nc cs d) =
     (if d = None then None
      else if \<not> b then Some (bval d)
      else get bs (bval d))"

text \<open>\<^verbatim>\<open>prependKey(prefix)\<close>: nothing happens for an empty prefix.\<close>

fun prependKey :: "node \<Rightarrow> bytes \<Rightarrow> node" where
  "prependKey (Node k r b nc cs d) p =
     (if blen p = 0 then Node k r b nc cs d
      else Node (Some (bval p @ bval k)) r b nc cs d)"

text \<open>
  \<^verbatim>\<open>findCompatibleChild(key)\<close>: the first child whose key shares a non-empty prefix with
  the given key, nil (\<open>None\<close>) without one.
\<close>

fun findCompatible :: "node list \<Rightarrow> bytes \<Rightarrow> node option" where
  "findCompatible [] k = None"
| "findCompatible (c # cs) k =
     (if 0 < blen (longestCommonPrefix (key c) k) then Some c else findCompatible cs k)"

definition findCompatibleChild :: "node \<Rightarrow> bytes \<Rightarrow> node option" where
  "findCompatibleChild n k = findCompatible (children n) k"

text \<open>
  The pointer that \<^verbatim>\<open>findCompatibleChild\<close> returns is also needed as a place to write
  to, when \<^verbatim>\<open>Put\<close> mutates the child it descended into: \<open>compatiblePos\<close> is the position of
  that child in the child list.
\<close>

fun compatiblePos :: "node list \<Rightarrow> bytes \<Rightarrow> nat option" where
  "compatiblePos [] k = None"
| "compatiblePos (c # cs) k =
     (if 0 < blen (longestCommonPrefix (key c) k) then Some 0
      else map_option Suc (compatiblePos cs k))"

text \<open>\<^verbatim>\<open>findChild(key)\<close>: the first child whose key equals the given key.\<close>

fun findChild :: "node \<Rightarrow> bytes \<Rightarrow> error + node" where
  "findChild n k =
     (case find (\<lambda>c. bytesEqual (key c) k) (children n) of
        None \<Rightarrow> Inl ErrKeyNotFound
      | Some c \<Rightarrow> Inr c)"

text \<open>
  \<^verbatim>\<open>addChild(child)\<close>. The child goes first into an empty list and in front of a first
  child with a greater key; otherwise the loop walks on from the first child while the
  next sibling's key is smaller than the child's and links the child in there.
\<close>

fun insertAfter :: "node \<Rightarrow> node list \<Rightarrow> node list" where
  "insertAfter c [] = [c]"
| "insertAfter c (y # ys) =
     (if bytesLess (bval (key y)) (bval (key c)) then y # insertAfter c ys else c # y # ys)"

fun insertChild :: "node \<Rightarrow> node list \<Rightarrow> node list" where
  "insertChild c [] = [c]"
| "insertChild c (f # rest) =
     (if bytesLess (bval (key c)) (bval (key f)) then c # f # rest else f # insertAfter c rest)"

fun addChild :: "node \<Rightarrow> node \<Rightarrow> node" where
  "addChild (Node k r b nc cs d) c = Node k r b (nc + 1) (insertChild c cs) d"

text \<open>
  \<^verbatim>\<open>removeChild(child)\<close> unlinks the first child whose key equals the given child's key
  and fails with \<^verbatim>\<open>ErrKeyNotFound\<close>, changing nothing, when there is none.
\<close>

fun removeByKey :: "bytes \<Rightarrow> node list \<Rightarrow> node list option" where
  "removeByKey k [] = None"
| "removeByKey k (c # cs) =
     (if bytesEqual (key c) k then Some cs
      else map_option ((#) c) (removeByKey k cs))"

fun removeChild :: "node \<Rightarrow> node \<Rightarrow> error + node" where
  "removeChild (Node k r b nc cs d) child =
     (case removeByKey (key child) cs of
        None \<Rightarrow> Inl ErrKeyNotFound
      | Some cs' \<Rightarrow> Inr (Node k r b (nc - 1) cs' d))"

text \<open>Writing a mutated child back at its position in the parent's list.\<close>

fun setChildAt :: "node \<Rightarrow> nat \<Rightarrow> node \<Rightarrow> node" where
  "setChildAt (Node k r b nc cs d) i c = Node k r b nc (cs[i := c]) d"

section \<open>The tree\<close>

text \<open>
  The struct \<^verbatim>\<open>Arc\<close>. The lock is not modelled: every operation holds it from start
  to end. \<^verbatim>\<open>arc.go\<close> calls \<^verbatim>\<open>setValue\<close> without a blob store while \<^verbatim>\<open>node.go\<close> declares
  it with one; the store handed over is the handle's field \<open>blobs\<close> (the tests pass
  \<^verbatim>\<open>rdb.blobs\<close>).
\<close>

record arc =
  root :: "node option"
  numNodes :: int
  numRecords :: int
  blobs :: blobStore

definition New :: arc where
  "New = \<lparr>root = None, numNodes = 0, numRecords = 0, blobs = Map.empty\<rparr>"

definition Len :: "arc \<Rightarrow> int" where
  "Len a = numRecords a"

definition empty :: "arc \<Rightarrow> bool" where
  "empty a = (root a = None \<and> numRecords a = 0)"

definition clear :: "arc \<Rightarrow> arc" where
  "clear a = a\<lparr>root := None, numNodes := 0, numRecords := 0\<rparr>"

text \<open>
  \<^verbatim>\<open>splitNode\<close>, the branch \<^verbatim>\<open>current == a.root\<close>: the new root, with the two nodes
  re-keyed to their suffixes as its children.
\<close>

definition splitNodeRoot :: "node \<Rightarrow> node \<Rightarrow> bytes \<Rightarrow> node" where
  "splitNodeRoot current newNode commonPrefix =
     (let current' = setKey current (sliceFrom (blen commonPrefix) (key current));
          newNode' = setKey newNode (sliceFrom (blen commonPrefix) (key newNode))
      in addChild (addChild (keyNode commonPrefix) current') newNode')"

text \<open>
  \<^verbatim>\<open>splitNode\<close> below the root: the parent after the split. The error of
  \<^verbatim>\<open>removeChild\<close> is discarded by the source, and a failed \<^verbatim>\<open>removeChild\<close> has
  changed nothing. The source links the new parent into the parent's list before it
  gives it its two children; \<^verbatim>\<open>addChild\<close> reads only the key of the child it links, so
  the list is the same as when the finished new parent is linked.
\<close>

definition splitNodeInner :: "node \<Rightarrow> node \<Rightarrow> node \<Rightarrow> bytes \<Rightarrow> node" where
  "splitNodeInner parent current newNode commonPrefix =
     (let parent1 = (case removeChild parent current of Inl e \<Rightarrow> parent | Inr p \<Rightarrow> p);
          current' = setKey current (sliceFrom (blen commonPrefix) (key current));
          newNode' = setKey newNode (sliceFrom (blen commonPrefix) (key newNode));
          newParent = addChild (addChild (keyNode commonPrefix) current') newNode'
      in addChild parent1 newParent)"

text \<open>
  The loop of \<^verbatim>\<open>Put\<close> below the root. \<open>parent\<close> is the node the loop came from and
  \<open>current\<close> its child at position \<open>i\<close>; the result is the error, the parent after the
  call, the increments of \<^verbatim>\<open>numNodes\<close> and \<^verbatim>\<open>numRecords\<close>, and the blob store. The
  source mutates \<open>current\<close> in place; here the mutated node is written back at its
  position on the way up.
\<close>

function putLoop ::
  "(byte list \<Rightarrow> blobID) \<Rightarrow> node \<Rightarrow> nat \<Rightarrow> bytes \<Rightarrow> node \<Rightarrow> bytes \<Rightarrow> blobStore
     \<Rightarrow> error option \<times> node \<times> int \<times> int \<times> blobStore" where
  "putLoop mkID parent i k newNode v bs =
     (let current = children parent ! i;
          prefix = longestCommonPrefix (key current) k;
          prefixLen = blen prefix
      in
      if prefixLen = blen (key current) \<and> prefixLen = blen (key newNode) then
        (case setValue mkID bs current v of
           (current', bs') \<Rightarrow>
             (None, setChildAt parent i current', 0, if isRecord current then 0 else 1, bs'))
      else if prefixLen = blen (key newNode) \<and> prefixLen < blen (key current) then
        (case removeChild parent current of
           Inl e \<Rightarrow> (Some e, parent, 0, 0, bs)
         | Inr parent' \<Rightarrow>
             (let current' = setKey current (sliceFrom (blen (key newNode)) (key current));
                  newNode' = addChild newNode current'
              in (None, addChild parent' newNode', 1, 1, bs)))
      else if 0 < prefixLen \<and> prefixLen < blen (key current) then
        (None, splitNodeInner parent current newNode prefix, 2, 1, bs)
      else
        (let k' = sliceFrom prefixLen k;
             newNode' = setKey newNode (sliceFrom prefixLen (key newNode))
         in
         case compatiblePos (children current) k' of
           None \<Rightarrow> (None, setChildAt parent i (addChild current newNode'), 1, 1, bs)
         | Some j \<Rightarrow>
             (case putLoop mkID current j k' newNode' v bs of
                (e, current', dn, dr, bs') \<Rightarrow> (e, setChildAt parent i current', dn, dr, bs'))))"
  by pat_completeness auto

lemma compatiblePos_less: "compatiblePos cs k = Some j \<Longrightarrow> j < length cs"
  by (induction cs arbitrary: j) (auto split: if_splits)

lemma size_child_less: "j < length (children n) \<Longrightarrow> size (children n ! j) < size n"
proof (cases n)
  case (Node k r b nc cs d)
  assume "j < length (children n)"
  then have "cs ! j \<in> set cs" using Node by simp
  then have "size (cs ! j) \<le> size_list size cs"
    by (rule size_list_estimation') simp
  then show ?thesis using Node by simp
qed

termination putLoop
proof (relation "measure (\<lambda>(mkID, parent, i, k, newNode, v, bs). size (children parent ! i))")
  show "wf (measure (\<lambda>(mkID, parent, i, k, newNode, v, bs). size (children parent ! i)))"
    by simp
next
  fix mkID :: "byte list \<Rightarrow> blobID" and parent :: node and i :: nat and k :: bytes
    and newNode :: node and v :: bytes and bs :: blobStore
    and current prefix prefixLen k' newNode' j
  assume "current = children parent ! i"
    and "compatiblePos (children current) k' = Some j"
  then show "((mkID, current, j, k', newNode', v, bs), (mkID, parent, i, k, newNode, v, bs))
      \<in> measure (\<lambda>(mkID, parent, i, k, newNode, v, bs). size (children parent ! i))"
    using size_child_less [OF compatiblePos_less] by simp
qed

declare putLoop.simps [simp del]

text \<open>
  The first pass of the loop of \<^verbatim>\<open>Put\<close>, where \<^verbatim>\<open>current == a.root\<close> and
  \<^verbatim>\<open>parent == nil\<close>; the later passes are \<open>putLoop\<close>.
\<close>

definition putRoot ::
  "(byte list \<Rightarrow> blobID) \<Rightarrow> arc \<Rightarrow> node \<Rightarrow> bytes \<Rightarrow> node \<Rightarrow> bytes \<Rightarrow> error option \<times> arc" where
  "putRoot mkID a current k newNode v =
     (let prefix = longestCommonPrefix (key current) k;
          prefixLen = blen prefix
      in
      if prefixLen = blen (key current) \<and> prefixLen = blen (key newNode) then
        (case setValue mkID (blobs a) current v of
           (current', bs') \<Rightarrow>
             (None, a\<lparr>root := Some current',
                       numRecords := (if isRecord current then numRecords a
                                      else numRecords a + 1),
                       blobs := bs'\<rparr>))
      else if prefixLen = blen (key newNode) \<and> prefixLen < blen (key current) then
        (let current' = setKey current (sliceFrom (blen (key newNode)) (key current))
         in (None, a\<lparr>root := Some (addChild newNode current'),
                      numNodes := numNodes a + 1, numRecords := numRecords a + 1\<rparr>))
      else if 0 < prefixLen \<and> prefixLen < blen (key current) then
        (None, a\<lparr>root := Some (splitNodeRoot current newNode prefix),
                  numNodes := numNodes a + 2, numRecords := numRecords a + 1\<rparr>)
      else
        (let k' = sliceFrom prefixLen k;
             newNode' = setKey newNode (sliceFrom prefixLen (key newNode))
         in
         case compatiblePos (children current) k' of
           None \<Rightarrow>
             (if key current = None \<or> prefixLen = blen (key current) then
                (None, a\<lparr>root := Some (addChild current newNode'),
                          numNodes := numNodes a + 1, numRecords := numRecords a + 1\<rparr>)
              else
                (None, a\<lparr>root := Some (addChild (addChild (keyNode prefix) current) newNode'),
                          numNodes := numNodes a + 2, numRecords := numRecords a + 1\<rparr>))
         | Some j \<Rightarrow>
             (case putLoop mkID current j k' newNode' v (blobs a) of
                (e, current', dn, dr, bs') \<Rightarrow>
                  (e, a\<lparr>root := Some current', numNodes := numNodes a + dn,
                        numRecords := numRecords a + dr, blobs := bs'\<rparr>))))"

text \<open>
  \<^verbatim>\<open>Put\<close>. The result is the returned error (\<open>None\<close> is Go's nil error) and the tree
  after the call. A tree with a nil root and a record count other than zero is not
  empty, and the source dereferences the nil root: a panic.
\<close>

definition Put :: "(byte list \<Rightarrow> blobID) \<Rightarrow> arc \<Rightarrow> bytes \<Rightarrow> bytes \<Rightarrow> error option \<times> arc" where
  "Put mkID a k v =
     (if k = None then (Some ErrNilKey, a)
      else if blen k > maxKeyBytes then (Some ErrKeyTooLarge, a)
      else if blen v > maxValueBytes then (Some ErrValueTooLarge, a)
      else
        (case setValue mkID (blobs a) (setKey emptyNode k) v of
           (newNode, bs) \<Rightarrow>
             (let a1 = a\<lparr>blobs := bs\<rparr> in
              if empty a1 then
                (None, a1\<lparr>root := Some newNode, numNodes := 1, numRecords := 1\<rparr>)
              else
                (case root a1 of
                   None \<Rightarrow> (Some Panic, a1)
                 | Some current \<Rightarrow>
                     if 0 < blen (key current) \<and> longestCommonPrefix (key current) k = None
                     then
                       (None, a1\<lparr>root := Some (addChild (addChild (keyNode None) current) newNode),
                                  numNodes := numNodes a1 + 2,
                                  numRecords := numRecords a1 + 1\<rparr>)
                     else putRoot mkID a1 current k newNode v))))"

text \<open>
  The loop of \<^verbatim>\<open>findNodeAndParent\<close>. \<open>atRoot\<close> is \<^verbatim>\<open>current == a.root\<close>: the tree has no
  sharing and no cycle, so the pointers are equal in the first pass and never again.
  On success the result is the node, its parent and \<open>atRoot\<close>.
\<close>

function findLoop :: "bool \<Rightarrow> node \<Rightarrow> node option \<Rightarrow> bytes \<Rightarrow> error + (node \<times> node option \<times> bool)" where
  "findLoop atRoot current parent k =
     (let prefix = longestCommonPrefix (key current) k;
          prefixLen = blen prefix
      in
      if prefix = None \<and> \<not> atRoot then Inl ErrKeyNotFound
      else if prefixLen \<noteq> blen (key current) then Inl ErrKeyNotFound
      else if prefixLen = blen k then Inr (current, parent, atRoot)
      else if \<not> hasChildren current then Inl ErrKeyNotFound
      else
        (let k' = sliceFrom (blen prefix) k in
         case findCompatibleChild current k' of
           None \<Rightarrow> Inl ErrKeyNotFound
         | Some next \<Rightarrow> findLoop False next (Some current) k'))"
  by pat_completeness auto

lemma findCompatible_mem: "findCompatible cs k = Some c \<Longrightarrow> c \<in> set cs"
  by (induction cs) (auto split: if_splits)

lemma size_member_less: "c \<in> set (children n) \<Longrightarrow> size c < size n"
  using size_child_less [of _ n] by (auto simp: in_set_conv_nth)

termination findLoop
  by (relation "measure (\<lambda>(atRoot, current, parent, k). size current)")
    (auto simp: findCompatibleChild_def dest!: findCompatible_mem size_member_less)

declare findLoop.simps [simp del]

definition findNodeAndParent :: "arc \<Rightarrow> bytes \<Rightarrow> error + (node \<times> node option \<times> bool)" where
  "findNodeAndParent a k =
     (if k = None then Inl ErrNilKey
      else if empty a then Inl ErrKeyNotFound
      else
        (case root a of
           None \<Rightarrow> Inl Panic
         | Some current \<Rightarrow> findLoop True current None k))"

text \<open>\<^verbatim>\<open>Get\<close> returns the \<^verbatim>\<open>data\<close> field of the node it finds.\<close>

definition Get :: "arc \<Rightarrow> bytes \<Rightarrow> error + bytes" where
  "Get a k =
     (if k = None then Inl ErrNilKey
      else
        (case findNodeAndParent a k of
           Inl e \<Rightarrow> Inl e
         | Inr (n, parent, atRoot) \<Rightarrow>
             if \<not> isRecord n then Inl ErrKeyNotFound else Inr (data n)))"

text \<open>
  \<^verbatim>\<open>deleteRootNode\<close>. It is called with a non-nil root only. With
  \<^verbatim>\<open>numChildren == 1\<close> the first child takes the root's key in front of its own and
  becomes the root.
\<close>

definition deleteRootNode :: "arc \<Rightarrow> arc" where
  "deleteRootNode a =
     (case root a of
        None \<Rightarrow> a
      | Some r \<Rightarrow>
          if isLeaf r then clear a
          else if numChildren r = 1 then
            a\<lparr>root := Some (prependKey (hd (children r)) (key r)),
              numNodes := numNodes a - 1, numRecords := numRecords a - 1\<rparr>
          else
            a\<lparr>root := Some (Node (key r) False (blobValue r) (numChildren r) (children r) None),
              numRecords := numRecords a - 1\<rparr>)"

text \<open>
  \<^verbatim>\<open>Delete\<close>. Below the root the source checks that the parent is not nil and returns
  nil: the tree is left as it was.
\<close>

definition Delete :: "arc \<Rightarrow> bytes \<Rightarrow> error option \<times> arc" where
  "Delete a k =
     (if k = None then (Some ErrNilKey, a)
      else if empty a then (Some ErrKeyNotFound, a)
      else if blen k > maxKeyBytes then (Some ErrKeyTooLarge, a)
      else
        (case findNodeAndParent a k of
           Inl e \<Rightarrow> (Some e, a)
         | Inr (delNode, parent, atRoot) \<Rightarrow>
             if \<not> isRecord delNode then (Some ErrKeyNotFound, a)
             else if atRoot then (None, deleteRootNode a)
             else if parent = None then (Some ErrCorrupted, a)
             else (None, a)))"

section \<open>The invariant of the children\<close>

text \<open>
  No two children in a list have keys that share a non-empty common prefix: every child
  is compared with those after it, by the source's own \<^verbatim>\<open>longestCommonPrefix\<close>.
\<close>

fun siblingsDisjoint :: "node list \<Rightarrow> bool" where
  "siblingsDisjoint [] = True"
| "siblingsDisjoint (c # cs) =
     (list_all (\<lambda>d. longestCommonPrefix (key c) (key d) = None) cs \<and> siblingsDisjoint cs)"

text \<open>The same for the children of every node of a tree.\<close>

fun treeDisjoint :: "node \<Rightarrow> bool" where
  "treeDisjoint (Node k r b nc cs d) = (siblingsDisjoint cs \<and> list_all treeDisjoint cs)"

definition arcDisjoint :: "arc \<Rightarrow> bool" where
  "arcDisjoint a = (case root a of None \<Rightarrow> True | Some r \<Rightarrow> treeDisjoint r)"

text \<open>All nodes of a tree, the root first.\<close>

fun nodesOf :: "node \<Rightarrow> node list" where
  "nodesOf (Node k r b nc cs d) = Node k r b nc cs d # concat (map nodesOf cs)"

text \<open>
  A sequence of calls of \<^verbatim>\<open>Put\<close>, every one of which returns nil; \<open>None\<close> when one of
  them returns an error.
\<close>

fun putAll :: "(byte list \<Rightarrow> blobID) \<Rightarrow> arc \<Rightarrow> (bytes \<times> bytes) list \<Rightarrow> arc option" where
  "putAll mkID a [] = Some a"
| "putAll mkID a ((k, v) # kvs) =
     (case Put mkID a k v of
        (None, a') \<Rightarrow> putAll mkID a' kvs
      | (Some e, a') \<Rightarrow> None)"

text \<open>The test of \<^verbatim>\<open>findCompatibleChild\<close>: the child shares a non-empty prefix with the key.\<close>

definition sharesPrefix :: "bytes \<Rightarrow> node \<Rightarrow> bool" where
  "sharesPrefix probe c = (0 < blen (longestCommonPrefix (key c) probe))"

text \<open>
  Two keys share a non-empty prefix exactly when both have a first byte and it is the
  same one. \<open>firstByte\<close> is the first byte of a node's key, as a list of length at most
  one, and \<open>heads\<close> lists the first bytes of a child list.
\<close>

definition firstByte :: "node \<Rightarrow> byte list" where
  "firstByte c = take 1 (bval (key c))"

definition heads :: "node list \<Rightarrow> byte list" where
  "heads cs = concat (map firstByte cs)"

section \<open>Node serialization\<close>

text \<open>
  Modelled from the spec: the node as the serialization layer sees it. \<^verbatim>\<open>node.go\<close>
  declares neither a checksum field nor \<^verbatim>\<open>serializeWithoutKey\<close>; the test file uses
  both, and compares \<^verbatim>\<open>numChildren\<close> with a \<^verbatim>\<open>uint16\<close>. The fields are those the
  serialization reads: key segment, value bytes, record flag, child count and the
  cached checksum.
\<close>

record snode =
  keyS :: bytes
  dataS :: bytes
  isRecordS :: bool
  numChildrenS :: "16 word"
  checksum :: "32 word"

text \<open>
  Modelled from the spec: the checksum is a fixed-width value computed over the key
  segment, the value bytes and the record flag. The function that computes it is not
  given and is the parameter \<open>cks\<close>.
\<close>

definition calculateChecksum ::
  "(byte list \<Rightarrow> byte list \<Rightarrow> bool \<Rightarrow> 32 word) \<Rightarrow> snode \<Rightarrow> 32 word" where
  "calculateChecksum cks n = cks (bval (keyS n)) (bval (dataS n)) (isRecordS n)"

definition updateChecksum ::
  "(byte list \<Rightarrow> byte list \<Rightarrow> bool \<Rightarrow> 32 word) \<Rightarrow> snode \<Rightarrow> snode" where
  "updateChecksum cks n = n\<lparr>checksum := calculateChecksum cks n\<rparr>"

definition verifyChecksum ::
  "(byte list \<Rightarrow> byte list \<Rightarrow> bool \<Rightarrow> 32 word) \<Rightarrow> snode \<Rightarrow> bool" where
  "verifyChecksum cks n = (checksum n = calculateChecksum cks n)"

text \<open>
  The \<open>n\<close> low bytes of a word, least significant byte first (\<^verbatim>\<open>binary.LittleEndian\<close>),
  and the word that a reader puts together from such bytes.
\<close>

fun leBytes :: "nat \<Rightarrow> 'a::len word \<Rightarrow> byte list" where
  "leBytes 0 w = []"
| "leBytes (Suc n) w = ucast w # leBytes n (drop_bit 8 w)"

fun leWord :: "byte list \<Rightarrow> 'a::len word" where
  "leWord [] = 0"
| "leWord (b # bs) = or (ucast b) (push_bit 8 (leWord bs))"

text \<open>
  Modelled from the spec: the reserved region holds two 8-byte offset slots, for the
  first child and the next sibling. The spec fixes their size only; the placeholders
  are taken to be zero.
\<close>

definition reservedOffsets :: "byte list" where
  "reservedOffsets = leBytes 8 (0 :: 64 word) @ leBytes 8 (0 :: 64 word)"

text \<open>
  Modelled from the spec: \<^verbatim>\<open>serializeWithoutKey\<close> fails with the invalid-checksum error
  unless \<^verbatim>\<open>verifyChecksum\<close> holds, and otherwise emits the checksum (4 bytes), the
  length of the value (8 bytes), the value bytes, the child count (2 bytes) and the
  reserved region, all little-endian.
\<close>

definition serializeWithoutKey ::
  "(byte list \<Rightarrow> byte list \<Rightarrow> bool \<Rightarrow> 32 word) \<Rightarrow> snode \<Rightarrow> error + byte list" where
  "serializeWithoutKey cks n =
     (if \<not> verifyChecksum cks n then Inl ErrInvalidChecksum
      else Inr (leBytes 4 (checksum n)
                @ leBytes 8 (word_of_nat (blen (dataS n)) :: 64 word)
                @ bval (dataS n)
                @ leBytes 2 (numChildrenS n)
                @ reservedOffsets))"

section \<open>Evaluation\<close>

text \<open>The defining equations that evaluate the operations on a concrete tree.\<close>

lemmas eval_defs = Put_def putRoot_def New_def maxKeyBytes_def maxValueBytes_def emptyNode_def
  keyNode_def inlineValueThreshold_def empty_def longestCommonPrefix_def Get_def
  findNodeAndParent_def findLoop.simps putLoop.simps Delete_def deleteRootNode_def clear_def
  findCompatibleChild_def splitNodeRoot_def splitNodeInner_def bytesEqual_def Len_def put_def
  release_def Let_def

section \<open>Validation of the arguments\<close>

text \<open>
  C3: \<^verbatim>\<open>Put\<close> returns \<^verbatim>\<open>ErrNilKey\<close> for a nil key, \<^verbatim>\<open>ErrKeyTooLarge\<close> for a key longer
  than 65535 bytes and \<^verbatim>\<open>ErrValueTooLarge\<close> for a value longer than \<open>2^32 - 1\<close> bytes,
  the three checks being made in this order, so that the length of the value decides
  for a key that passed its own checks. In every such failing call the tree after the
  call is the tree before it: root, node count, record count and blob store.
\<close>

theorem Put_validation:
  "(k = None \<longrightarrow> Put mkID a k v = (Some ErrNilKey, a)) \<and>
   (maxKeyBytes < blen k \<longrightarrow> Put mkID a k v = (Some ErrKeyTooLarge, a)) \<and>
   (k \<noteq> None \<and> blen k \<le> maxKeyBytes \<and> maxValueBytes < blen v \<longrightarrow>
      Put mkID a k v = (Some ErrValueTooLarge, a)) \<and>
   (k = None \<or> maxKeyBytes < blen k \<or> maxValueBytes < blen v \<longrightarrow>
      fst (Put mkID a k v) \<in> {Some ErrNilKey, Some ErrKeyTooLarge, Some ErrValueTooLarge} \<and>
      snd (Put mkID a k v) = a)"
  by (cases k) (auto simp: Put_def)

theorem Put_validation_witness:
  "Put (\<lambda>v. v) New None (Some [1]) = (Some ErrNilKey, New) \<and>
   Put (\<lambda>v. v) New (Some (replicate 65536 0)) (Some [1]) = (Some ErrKeyTooLarge, New) \<and>
   Put (\<lambda>v. v) New (Some [97]) (Some (replicate (2 ^ 32) 0)) = (Some ErrValueTooLarge, New) \<and>
   snd (Put (\<lambda>v. v) New None (Some (replicate (2 ^ 32) 0))) = New"
  using Put_validation [of None "\<lambda>v. v" New "Some [1]"]
    Put_validation [of "Some (replicate 65536 0)" "\<lambda>v. v" New "Some [1]"]
    Put_validation [of "Some [97]" "\<lambda>v. v" New "Some (replicate (2 ^ 32) 0)"]
    Put_validation [of None "\<lambda>v. v" New "Some (replicate (2 ^ 32) 0)"]
  by (simp add: maxKeyBytes_def maxValueBytes_def)

text \<open>
  C9: \<^verbatim>\<open>Get\<close> with a nil key returns \<^verbatim>\<open>ErrNilKey\<close>, not \<^verbatim>\<open>ErrKeyNotFound\<close>, in every
  state of the tree, the empty tree included.
\<close>

theorem Get_nil_key: "Get a None = Inl ErrNilKey"
  by (simp add: Get_def)

text \<open>
  C10: \<^verbatim>\<open>Delete\<close> on an empty tree returns \<^verbatim>\<open>ErrKeyNotFound\<close> for every non-nil key,
  whatever its length, since the emptiness check comes before the check of the key's
  size; so a \<^verbatim>\<open>Delete\<close> that returns \<^verbatim>\<open>ErrKeyTooLarge\<close> was called on a non-empty tree.
\<close>

theorem Delete_empty_tree:
  "(empty a \<and> k \<noteq> None \<longrightarrow> Delete a k = (Some ErrKeyNotFound, a)) \<and>
   (fst (Delete a k) = Some ErrKeyTooLarge \<longrightarrow> \<not> empty a)"
  by (auto simp: Delete_def)

theorem Delete_empty_tree_witness:
  "Delete New (Some (replicate 65536 0)) = (Some ErrKeyNotFound, New) \<and>
   fst (Delete (snd (Put (\<lambda>v. v) New (Some [97]) (Some [1]))) (Some (replicate 65536 0)))
     = Some ErrKeyTooLarge \<and>
   \<not> empty (snd (Put (\<lambda>v. v) New (Some [97]) (Some [1])))"
  using Delete_empty_tree [of New "Some (replicate 65536 0)"]
    Delete_empty_tree [of "snd (Put (\<lambda>v. v) New (Some [97]) (Some [1]))"
      "Some (replicate 65536 0)"]
  by (simp add: eval_defs)

section \<open>Reading back what was stored\<close>

text \<open>
  C1: \<^verbatim>\<open>Put(key, value)\<close> followed by \<^verbatim>\<open>Get(key)\<close> should return the value. The code
  does not do so for the empty, non-nil key on a tree whose root holds a non-empty key:
  both calls of \<^verbatim>\<open>Put\<close> below succeed, the second one hangs the record with the empty
  key under a new nil-key root, and \<^verbatim>\<open>Get\<close> stops at that root, which is no record.
\<close>

theorem Get_after_Put_empty_key:
  "fst (Put mkID New (Some [97]) (Some [1])) = None \<and>
   fst (Put mkID (snd (Put mkID New (Some [97]) (Some [1]))) (Some []) (Some [2])) = None \<and>
   Get (snd (Put mkID (snd (Put mkID New (Some [97]) (Some [1]))) (Some []) (Some [2]))) (Some [])
     = Inl ErrKeyNotFound"
  by (simp add: eval_defs)

text \<open>
  A value of 33 bytes goes to the blob store, and \<^verbatim>\<open>Get\<close> returns the node's data, which
  is the blobID and not the value.
\<close>

lemma Get_after_Put_blob_value:
  "fst (Put mkID New (Some [97]) (Some (replicate 33 0))) = None \<and>
   Get (snd (Put mkID New (Some [97]) (Some (replicate 33 0)))) (Some [97])
     = Inr (Some (mkID (replicate 33 0)))"
  by (simp add: eval_defs)

section \<open>Deletion\<close>

text \<open>
  C2: deleting every inserted key should leave the empty tree. The code leaves a
  record below the root where it is: after two insertions under a nil-key root both
  calls of \<^verbatim>\<open>Delete\<close> return nil, and the tree still holds two records that \<^verbatim>\<open>Get\<close>
  finds.
\<close>

theorem Delete_below_root_removes_nothing:
  "(let a0 = snd (Put mkID New (Some [97]) (Some [1]));
        a1 = snd (Put mkID a0 (Some [98]) (Some [2]));
        (e2, a2) = Delete a1 (Some [97]);
        (e3, a3) = Delete a2 (Some [98])
    in e2 = None \<and> e3 = None \<and> Len a3 = 2 \<and> root a3 \<noteq> None \<and>
       Get a3 (Some [97]) = Inr (Some [1]) \<and> Get a3 (Some [98]) = Inr (Some [2]))"
  by (simp add: eval_defs)

text \<open>
  In general: when the record that \<^verbatim>\<open>Delete\<close> finds is not the root, the call
  returns nil and the tree is the one before the call.
\<close>

lemma Delete_below_root_unchanged:
  assumes "k \<noteq> None" and "blen k \<le> maxKeyBytes"
    and "findNodeAndParent a k = Inr (n, Some p, False)" and "isRecord n"
  shows "Delete a k = (None, a)"
proof -
  from assms(1,3) have "\<not> empty a"
    by (cases k) (auto simp: findNodeAndParent_def split: if_splits)
  with assms show ?thesis by (cases k) (simp_all add: Delete_def)
qed

text \<open>The search reports the root only in its first pass.\<close>

lemma findLoop_atRoot:
  "findLoop f c p k = Inr (n, q, g) \<Longrightarrow> g \<Longrightarrow> f \<and> n = c \<and> q = p"
proof (induction f c p k rule: findLoop.induct)
  case (1 atRoot current parent k)
  note unf = "1.prems"(1) [unfolded findLoop.simps [of atRoot current parent k]]
  from unf "1.IH" "1.prems"(2) show ?case
    by (auto simp: Let_def split: if_splits option.splits)
qed

lemma prependKey_fields:
  "bval (key (prependKey c p)) = bval p @ bval (key c) \<and>
   isRecord (prependKey c p) = isRecord c \<and> blobValue (prependKey c p) = blobValue c \<and>
   numChildren (prependKey c p) = numChildren c \<and> children (prependKey c p) = children c \<and>
   data (prependKey c p) = data c"
  by (cases c; cases p) auto

text \<open>
  C4: \<^verbatim>\<open>Delete\<close> on a key whose node is the root and is a record. A root that is a leaf
  clears the tree (root nil, both counts zero). With exactly one child, the child
  becomes the root with the old root's key in front of its own, and the node count
  goes down by one. With more children the root stays, with its value cleared and
  its record flag unset. In the last two cases the record count goes down by one.
  The cached child count of the root is the number of its children.
\<close>

theorem Delete_root_record:
  assumes "root a = Some r" and "k \<noteq> None" and "blen k \<le> maxKeyBytes"
    and "findNodeAndParent a k = Inr (n, p, True)" and "isRecord n"
    and "numChildren r = int (length (children r))"
  shows "n = r \<and> fst (Delete a k) = None \<and>
    (children r = [] \<longrightarrow>
       snd (Delete a k) = a\<lparr>root := None, numNodes := 0, numRecords := 0\<rparr>) \<and>
    (length (children r) = 1 \<longrightarrow>
       (\<exists>c c'. children r = [c] \<and>
          snd (Delete a k) = a\<lparr>root := Some c', numNodes := numNodes a - 1,
                                 numRecords := numRecords a - 1\<rparr> \<and>
          bval (key c') = bval (key r) @ bval (key c) \<and>
          isRecord c' = isRecord c \<and> blobValue c' = blobValue c \<and> data c' = data c \<and>
          numChildren c' = numChildren c \<and> children c' = children c)) \<and>
    (1 < length (children r) \<longrightarrow>
       snd (Delete a k) =
         a\<lparr>root := Some (Node (key r) False (blobValue r) (numChildren r) (children r) None),
           numRecords := numRecords a - 1\<rparr>)"
proof -
  have ne: "\<not> empty a" using assms(1) by (simp add: empty_def)
  have fl: "findLoop True r None k = Inr (n, p, True)"
    using assms(1,2,4) ne by (cases k) (simp_all add: findNodeAndParent_def)
  then have nr: "n = r" using findLoop_atRoot by blast
  have del: "Delete a k = (None, deleteRootNode a)"
    using assms(2,3,4,5) ne by (cases k) (simp_all add: Delete_def)
  have leaf: "children r = [] \<Longrightarrow>
      deleteRootNode a = a\<lparr>root := None, numNodes := 0, numRecords := 0\<rparr>"
    using assms(1) by (simp add: deleteRootNode_def clear_def)
  have one: "\<exists>c c'. children r = [c] \<and>
          deleteRootNode a = a\<lparr>root := Some c', numNodes := numNodes a - 1,
                                 numRecords := numRecords a - 1\<rparr> \<and>
          bval (key c') = bval (key r) @ bval (key c) \<and>
          isRecord c' = isRecord c \<and> blobValue c' = blobValue c \<and> data c' = data c \<and>
          numChildren c' = numChildren c \<and> children c' = children c"
    if len: "length (children r) = 1"
  proof -
    from len obtain c where c: "children r = [c]"
      by (cases "children r") auto
    have "deleteRootNode a = a\<lparr>root := Some (prependKey c (key r)),
        numNodes := numNodes a - 1, numRecords := numRecords a - 1\<rparr>"
      using assms(1,6) c by (simp add: deleteRootNode_def)
    with c prependKey_fields [of c "key r"] show ?thesis by blast
  qed
  have many: "1 < length (children r) \<Longrightarrow> deleteRootNode a =
         a\<lparr>root := Some (Node (key r) False (blobValue r) (numChildren r) (children r) None),
           numRecords := numRecords a - 1\<rparr>"
    using assms(1,6) by (auto simp: deleteRootNode_def)
  show ?thesis using nr del leaf one many by simp
qed

theorem Delete_root_record_witness:
  "snd (Delete \<lparr>root = Some (Node (Some [97]) True False 0 [] (Some [1])),
                 numNodes = 1, numRecords = 1, blobs = Map.empty\<rparr> (Some [97]))
     = \<lparr>root = None, numNodes = 0, numRecords = 0, blobs = Map.empty\<rparr> \<and>
   snd (Delete \<lparr>root = Some (Node (Some [97]) True False 1
                   [Node (Some [98]) True False 0 [] (Some [2])] (Some [1])),
                 numNodes = 2, numRecords = 2, blobs = Map.empty\<rparr> (Some [97]))
     = \<lparr>root = Some (Node (Some [97, 98]) True False 0 [] (Some [2])),
         numNodes = 1, numRecords = 1, blobs = Map.empty\<rparr> \<and>
   snd (Delete \<lparr>root = Some (Node (Some [97]) True False 2
                   [Node (Some [98]) True False 0 [] (Some [2]),
                    Node (Some [99]) True False 0 [] (Some [3])] (Some [1])),
                 numNodes = 3, numRecords = 3, blobs = Map.empty\<rparr> (Some [97]))
     = \<lparr>root = Some (Node (Some [97]) False False 2
                   [Node (Some [98]) True False 0 [] (Some [2]),
                    Node (Some [99]) True False 0 [] (Some [3])] None),
         numNodes = 3, numRecords = 2, blobs = Map.empty\<rparr>"
  using
    Delete_root_record [of
      "\<lparr>root = Some (Node (Some [97]) True False 0 [] (Some [1])),
        numNodes = 1, numRecords = 1, blobs = Map.empty\<rparr>"
      "Node (Some [97]) True False 0 [] (Some [1])" "Some [97]"
      "Node (Some [97]) True False 0 [] (Some [1])" None]
    Delete_root_record [of
      "\<lparr>root = Some (Node (Some [97]) True False 1
                   [Node (Some [98]) True False 0 [] (Some [2])] (Some [1])),
        numNodes = 2, numRecords = 2, blobs = Map.empty\<rparr>"
      "Node (Some [97]) True False 1 [Node (Some [98]) True False 0 [] (Some [2])] (Some [1])"
      "Some [97]"
      "Node (Some [97]) True False 1 [Node (Some [98]) True False 0 [] (Some [2])] (Some [1])"
      None]
    Delete_root_record [of
      "\<lparr>root = Some (Node (Some [97]) True False 2
                   [Node (Some [98]) True False 0 [] (Some [2]),
                    Node (Some [99]) True False 0 [] (Some [3])] (Some [1])),
        numNodes = 3, numRecords = 3, blobs = Map.empty\<rparr>"
      "Node (Some [97]) True False 2 [Node (Some [98]) True False 0 [] (Some [2]),
                    Node (Some [99]) True False 0 [] (Some [3])] (Some [1])"
      "Some [97]"
      "Node (Some [97]) True False 2 [Node (Some [98]) True False 0 [] (Some [2]),
                    Node (Some [99]) True False 0 [] (Some [3])] (Some [1])"
      None]
  by (simp add: eval_defs)

section \<open>The blob store: reference counts\<close>

lemma put_id: "fst (put mkID bs v) = mkID v"
  by (simp add: put_def Let_def split: option.splits)

lemma put_other: "j \<noteq> mkID v \<Longrightarrow> snd (put mkID bs v) j = bs j"
  by (simp add: put_def Let_def split: option.splits)

lemma put_count:
  "\<exists>b. snd (put mkID bs v) (mkID v) = Some b \<and> refCount b = countOf bs (mkID v) + 1 \<and>
     bvalue b = (case bs (mkID v) of None \<Rightarrow> v | Some b0 \<Rightarrow> bvalue b0)"
  by (simp add: put_def Let_def countOf_def split: option.splits)

lemma putTimes_ids: "fst (putTimes mkID n bs v) = replicate n (mkID v)"
  by (induction n arbitrary: bs) (simp_all add: Let_def put_id)

lemma putTimes_other: "j \<noteq> mkID v \<Longrightarrow> snd (putTimes mkID n bs v) j = bs j"
  by (induction n arbitrary: bs) (simp_all add: Let_def put_other)

lemma putTimes_count:
  "0 < n \<Longrightarrow> \<exists>b. snd (putTimes mkID n bs v) (mkID v) = Some b \<and>
     refCount b = countOf bs (mkID v) + int n \<and>
     bvalue b = (case bs (mkID v) of None \<Rightarrow> v | Some b0 \<Rightarrow> bvalue b0)"
proof (induction n arbitrary: bs)
  case 0
  then show ?case by simp
next
  case (Suc n)
  from put_count [of mkID bs v] obtain b where
    b: "snd (put mkID bs v) (mkID v) = Some b" "refCount b = countOf bs (mkID v) + 1"
      "bvalue b = (case bs (mkID v) of None \<Rightarrow> v | Some b0 \<Rightarrow> bvalue b0)"
    by blast
  show ?case
  proof (cases n)
    case 0
    have "putTimes mkID (Suc n) bs v = ([fst (put mkID bs v)], snd (put mkID bs v))"
      using 0 by (simp add: Let_def)
    with b show ?thesis using 0 by simp
  next
    case (Suc m)
    then have "0 < n" by simp
    from Suc.IH [OF this, of "snd (put mkID bs v)"] obtain b' where
      b': "snd (putTimes mkID n (snd (put mkID bs v)) v) (mkID v) = Some b'"
      "refCount b' = countOf (snd (put mkID bs v)) (mkID v) + int n"
      "bvalue b' = (case snd (put mkID bs v) (mkID v) of None \<Rightarrow> v | Some b0 \<Rightarrow> bvalue b0)"
      by blast
    have s: "snd (putTimes mkID (Suc n) bs v) = snd (putTimes mkID n (snd (put mkID bs v)) v)"
      by (simp add: Let_def)
    have c: "countOf (snd (put mkID bs v)) (mkID v) = countOf bs (mkID v) + 1"
      using b(1,2) by (simp add: countOf_def)
    have "refCount b' = countOf bs (mkID v) + int (Suc n)"
      using b'(2) c by simp
    moreover have "bvalue b' = (case bs (mkID v) of None \<Rightarrow> v | Some b0 \<Rightarrow> bvalue b0)"
      using b'(3) b(1,3) by simp
    ultimately show ?thesis using b'(1) s by simp
  qed
qed

text \<open>
  C6: \<^verbatim>\<open>put(value)\<close> returns the ID that the content hash gives the value, whatever
  the store holds. Called \<open>n\<close> times with one value it returns that ID every time,
  leaves every other entry as it was, and leaves one entry for the ID whose reference
  count is \<open>n\<close> more than before: \<open>n\<close> when the store had no entry for it, so 1 after
  the first call. \<^verbatim>\<open>put\<close> has no error result.
\<close>

theorem put_same_value:
  "fst (put mkID bs v) = mkID v \<and>
   fst (putTimes mkID n bs v) = replicate n (mkID v) \<and>
   (\<forall>j. j \<noteq> mkID v \<longrightarrow> snd (putTimes mkID n bs v) j = bs j) \<and>
   (0 < n \<longrightarrow>
      (\<exists>b. snd (putTimes mkID n bs v) (mkID v) = Some b \<and>
           refCount b = countOf bs (mkID v) + int n \<and>
           (bs (mkID v) = None \<longrightarrow> refCount b = int n \<and> bvalue b = v)))"
proof -
  have c1: "fst (put mkID bs v) = mkID v" by (rule put_id)
  have c2: "fst (putTimes mkID n bs v) = replicate n (mkID v)" by (rule putTimes_ids)
  have c3: "\<forall>j. j \<noteq> mkID v \<longrightarrow> snd (putTimes mkID n bs v) j = bs j"
    by (simp add: putTimes_other)
  have c4: "\<exists>b. snd (putTimes mkID n bs v) (mkID v) = Some b \<and>
           refCount b = countOf bs (mkID v) + int n \<and>
           (bs (mkID v) = None \<longrightarrow> refCount b = int n \<and> bvalue b = v)" if "0 < n"
  proof -
    from putTimes_count [OF that, of mkID bs v] obtain b where
      b: "snd (putTimes mkID n bs v) (mkID v) = Some b"
        "refCount b = countOf bs (mkID v) + int n"
        "bvalue b = (case bs (mkID v) of None \<Rightarrow> v | Some b0 \<Rightarrow> bvalue b0)"
      by (elim exE conjE)
    have "bs (mkID v) = None \<Longrightarrow> refCount b = int n \<and> bvalue b = v"
      using b(2,3) by (simp add: countOf_def)
    then show ?thesis using b(1,2) by (intro exI [of _ b]) simp
  qed
  show ?thesis using c1 c2 c3 c4 by (intro conjI impI)
qed


theorem put_same_value_witness:
  "fst (putTimes (take 4) 3 Map.empty [97, 112, 112, 108, 101]) = replicate 3 [97, 112, 112, 108] \<and>
   (\<exists>b. snd (putTimes (take 4) 3 Map.empty [97, 112, 112, 108, 101]) [97, 112, 112, 108] = Some b \<and>
        refCount b = 3 \<and> bvalue b = [97, 112, 112, 108, 101]) \<and>
   (\<exists>b. snd (putTimes (take 4) 1 Map.empty [97, 112, 112, 108, 101]) [97, 112, 112, 108] = Some b \<and>
        refCount b = 1 \<and> bvalue b = [97, 112, 112, 108, 101])"
  using put_same_value [of "take 4" Map.empty "[97, 112, 112, 108, 101]" 3]
    put_same_value [of "take 4" Map.empty "[97, 112, 112, 108, 101]" 1]
  by (simp add: countOf_def del: putTimes.simps)

lemma release_cases:
  "(bs i = None \<longrightarrow> release bs i = bs) \<and>
   (\<forall>b. bs i = Some b \<and> refCount b - 1 \<noteq> 0 \<longrightarrow>
        release bs i = bs(i \<mapsto> b\<lparr>refCount := refCount b - 1\<rparr>)) \<and>
   (\<forall>b. bs i = Some b \<and> refCount b - 1 = 0 \<longrightarrow> release bs i = bs(i := None))"
  by (simp add: release_def)

lemma countsPositive_put:
  assumes "countsPositive bs"
  shows "countsPositive (snd (put mkID bs v))"
  unfolding countsPositive_def
proof (intro allI impI)
  fix j b
  assume h: "snd (put mkID bs v) j = Some b"
  show "1 \<le> refCount b"
  proof (cases "bs (mkID v)")
    case None
    then have "snd (put mkID bs v) = bs(mkID v \<mapsto> \<lparr>bvalue = v, refCount = 1\<rparr>)"
      by (simp add: put_def Let_def)
    with h assms show ?thesis
      by (cases "j = mkID v") (auto simp: countsPositive_def)
  next
    case (Some b0)
    then have "snd (put mkID bs v) = bs(mkID v \<mapsto> b0\<lparr>refCount := refCount b0 + 1\<rparr>)"
      by (simp add: put_def Let_def)
    moreover have "1 \<le> refCount b0" using assms Some by (simp add: countsPositive_def)
    ultimately show ?thesis using h assms
      by (cases "j = mkID v") (auto simp: countsPositive_def)
  qed
qed

lemma countsPositive_release:
  assumes "countsPositive bs"
  shows "countsPositive (release bs i)"
  unfolding countsPositive_def
proof (intro allI impI)
  fix j b
  assume h: "release bs i j = Some b"
  show "1 \<le> refCount b"
  proof (cases "bs i")
    case None
    with h assms show ?thesis by (simp add: release_def countsPositive_def)
  next
    case (Some b0)
    have b0: "1 \<le> refCount b0" using assms Some by (simp add: countsPositive_def)
    show ?thesis
    proof (cases "j = i")
      case True
      with h Some have "refCount b0 - 1 \<noteq> 0" "b = b0\<lparr>refCount := refCount b0 - 1\<rparr>"
        by (auto simp: release_def split: if_splits)
      with b0 show ?thesis by simp
    next
      case False
      with h Some have "bs j = Some b"
        by (simp add: release_def split: if_splits)
      with assms show ?thesis by (simp add: countsPositive_def)
    qed
  qed
qed

lemma countsPositive_applyOps:
  "countsPositive bs \<Longrightarrow> countsPositive (applyOps mkID ops bs)"
proof (induction ops arbitrary: bs)
  case Nil
  then show ?case by simp
next
  case (Cons op ops)
  then show ?case
    by (cases op) (simp_all add: countsPositive_put countsPositive_release)
qed

text \<open>
  C7: \<^verbatim>\<open>release(blobID)\<close> leaves the store as it is when the ID has no entry; it
  lowers the reference count of an entry by one, and removes the entry exactly when
  the count reaches zero. In every store that a sequence of \<^verbatim>\<open>put\<close> and \<^verbatim>\<open>release\<close>
  makes from the empty store, every entry has a reference count of at least 1.
\<close>

theorem release_refCount:
  "(bs i = None \<longrightarrow> release bs i = bs) \<and>
   (\<forall>b. bs i = Some b \<and> refCount b - 1 \<noteq> 0 \<longrightarrow>
        release bs i = bs(i \<mapsto> b\<lparr>refCount := refCount b - 1\<rparr>)) \<and>
   (\<forall>b. bs i = Some b \<and> refCount b - 1 = 0 \<longrightarrow> release bs i = bs(i := None)) \<and>
   (\<forall>j b. applyOps mkID ops Map.empty j = Some b \<longrightarrow> 1 \<le> refCount b)"
proof -
  have "countsPositive (applyOps mkID ops Map.empty)"
    by (rule countsPositive_applyOps) (simp add: countsPositive_def)
  then have "\<forall>j b. applyOps mkID ops Map.empty j = Some b \<longrightarrow> 1 \<le> refCount b"
    by (simp add: countsPositive_def)
  with release_cases [of bs i] show ?thesis by simp
qed


theorem release_refCount_witness:
  "release [[1, 2, 3, 4] \<mapsto> \<lparr>bvalue = [1, 2, 3, 4, 5], refCount = 2\<rparr>] [1, 2, 3, 4]
     = [[1, 2, 3, 4] \<mapsto> \<lparr>bvalue = [1, 2, 3, 4, 5], refCount = 1\<rparr>] \<and>
   release [[1, 2, 3, 4] \<mapsto> \<lparr>bvalue = [1, 2, 3, 4, 5], refCount = 1\<rparr>] [1, 2, 3, 4]
     = Map.empty \<and>
   release [[1, 2, 3, 4] \<mapsto> \<lparr>bvalue = [1, 2, 3, 4, 5], refCount = 1\<rparr>] [98, 111, 103, 117, 115]
     = [[1, 2, 3, 4] \<mapsto> \<lparr>bvalue = [1, 2, 3, 4, 5], refCount = 1\<rparr>] \<and>
   (\<exists>b. applyOps (take 4) [OpPut [1, 2, 3, 4, 5], OpPut [1, 2, 3, 4, 5], OpRelease [1, 2, 3, 4]]
          Map.empty [1, 2, 3, 4] = Some b \<and> 1 \<le> refCount b)"
  using
    release_refCount [of "[[1, 2, 3, 4] \<mapsto> \<lparr>bvalue = [1, 2, 3, 4, 5], refCount = 2\<rparr>]"
      "[1, 2, 3, 4]" "take 4"
      "[OpPut [1, 2, 3, 4, 5], OpPut [1, 2, 3, 4, 5], OpRelease [1, 2, 3, 4]]"]
    release_refCount [of "[[1, 2, 3, 4] \<mapsto> \<lparr>bvalue = [1, 2, 3, 4, 5], refCount = 1\<rparr>]"
      "[1, 2, 3, 4]" "take 4" "[]"]
    release_refCount [of "[[1, 2, 3, 4] \<mapsto> \<lparr>bvalue = [1, 2, 3, 4, 5], refCount = 1\<rparr>]"
      "[98, 111, 103, 117, 115]" "take 4" "[]"]
  by (simp add: put_def release_def Let_def)


section \<open>The serialized node\<close>

lemma length_leBytes: "length (leBytes n w) = n"
  by (induction n arbitrary: w) simp_all

lemma leWord_leBytes: "leWord (leBytes n w) = (take_bit (8 * n) w :: 'a::len word)"
proof (induction n arbitrary: w)
  case 0
  show ?case by simp
next
  case (Suc n)
  show ?case
    by (simp add: Suc) (rule bit_eqI, auto simp: bit_simps)
qed

lemma leWord_leBytes_32: "leWord (leBytes 4 (w :: 32 word)) = w"
  by (simp add: leWord_leBytes take_bit_word_eq_self)

lemma leWord_leBytes_64: "leWord (leBytes 8 (w :: 64 word)) = w"
  by (simp add: leWord_leBytes take_bit_word_eq_self)

lemma leWord_leBytes_16: "leWord (leBytes 2 (w :: 16 word)) = w"
  by (simp add: leWord_leBytes take_bit_word_eq_self)

text \<open>After \<^verbatim>\<open>updateChecksum\<close> the checksum verifies, and the node serializes.\<close>

lemma updateChecksum_verifies:
  "verifyChecksum cks (updateChecksum cks n) \<and>
   (\<exists>out. serializeWithoutKey cks (updateChecksum cks n) = Inr out)"
  by (simp add: verifyChecksum_def updateChecksum_def calculateChecksum_def
      serializeWithoutKey_def)

lemma length_reservedOffsets: "length reservedOffsets = 16"
  by (simp add: reservedOffsets_def length_leBytes)


text \<open>
  C5: \<^verbatim>\<open>serializeWithoutKey\<close> fails with \<^verbatim>\<open>ErrInvalidChecksum\<close> when the stored
  checksum is not the checksum of the node's content. Otherwise it returns, in this
  order and little-endian, the 4 bytes of the checksum, the 8 bytes of the value's
  length, the value bytes, the 2 bytes of the child count and a reserved region of
  16 bytes; a reader gets the four fields back from these positions. The key segment is
  no part of the output: two nodes that differ in the key only and both serialize
  give the same bytes.
\<close>

theorem serializeWithoutKey_layout:
  "(\<not> verifyChecksum cks n \<longrightarrow> serializeWithoutKey cks n = Inl ErrInvalidChecksum) \<and>
   (verifyChecksum cks n \<longrightarrow>
      (\<exists>out reserved.
         serializeWithoutKey cks n = Inr out \<and>
         out = leBytes 4 (checksum n) @ leBytes 8 (word_of_nat (blen (dataS n)) :: 64 word)
               @ bval (dataS n) @ leBytes 2 (numChildrenS n) @ reserved \<and>
         length reserved = 16 \<and>
         length out = 4 + 8 + blen (dataS n) + 2 + 16 \<and>
         leWord (take 4 out) = checksum n \<and>
         leWord (take 8 (drop 4 out)) = (word_of_nat (blen (dataS n)) :: 64 word) \<and>
         take (blen (dataS n)) (drop 12 out) = bval (dataS n) \<and>
         leWord (take 2 (drop (12 + blen (dataS n)) out)) = numChildrenS n \<and>
         drop (14 + blen (dataS n)) out = reserved)) \<and>
   (\<forall>k' out out'. serializeWithoutKey cks n = Inr out \<and>
        serializeWithoutKey cks (n\<lparr>keyS := k'\<rparr>) = Inr out' \<longrightarrow> out = out')"
proof (intro conjI impI allI)
  assume "\<not> verifyChecksum cks n"
  then show "serializeWithoutKey cks n = Inl ErrInvalidChecksum"
    by (simp add: serializeWithoutKey_def)
next
  assume ok: "verifyChecksum cks n"
  define d where "d = bval (dataS n)"
  have ld: "length d = blen (dataS n)" unfolding d_def by (cases "dataS n") simp_all
  define out where "out = leBytes 4 (checksum n)
      @ leBytes 8 (word_of_nat (blen (dataS n)) :: 64 word) @ d
      @ leBytes 2 (numChildrenS n) @ reservedOffsets"
  have s: "serializeWithoutKey cks n = Inr out"
    using ok by (simp add: serializeWithoutKey_def out_def d_def)
  have len: "length out = 4 + 8 + blen (dataS n) + 2 + 16"
    by (simp add: out_def length_leBytes length_reservedOffsets ld)
  have t4: "take 4 out = leBytes 4 (checksum n)"
    by (simp add: out_def length_leBytes)
  have t8: "take 8 (drop 4 out) = leBytes 8 (word_of_nat (blen (dataS n)) :: 64 word)"
    by (simp add: out_def length_leBytes)
  have td: "take (blen (dataS n)) (drop 12 out) = d"
    by (simp add: out_def length_leBytes ld)
  have t2: "take 2 (drop (12 + blen (dataS n)) out) = leBytes 2 (numChildrenS n)"
    by (simp add: out_def length_leBytes ld)
  have tr: "drop (14 + blen (dataS n)) out = reservedOffsets"
    by (simp add: out_def length_leBytes ld)
  show "\<exists>out reserved.
         serializeWithoutKey cks n = Inr out \<and>
         out = leBytes 4 (checksum n) @ leBytes 8 (word_of_nat (blen (dataS n)) :: 64 word)
               @ bval (dataS n) @ leBytes 2 (numChildrenS n) @ reserved \<and>
         length reserved = 16 \<and>
         length out = 4 + 8 + blen (dataS n) + 2 + 16 \<and>
         leWord (take 4 out) = checksum n \<and>
         leWord (take 8 (drop 4 out)) = (word_of_nat (blen (dataS n)) :: 64 word) \<and>
         take (blen (dataS n)) (drop 12 out) = bval (dataS n) \<and>
         leWord (take 2 (drop (12 + blen (dataS n)) out)) = numChildrenS n \<and>
         drop (14 + blen (dataS n)) out = reserved"
    apply (rule exI [of _ out])
    apply (rule exI [of _ reservedOffsets])
    apply (simp only: s len t4 t8 td t2 tr leWord_leBytes_32 leWord_leBytes_64
        leWord_leBytes_16 length_reservedOffsets)
    apply (simp add: out_def d_def)
    done
next
  fix k' out out'
  assume "serializeWithoutKey cks n = Inr out \<and>
        serializeWithoutKey cks (n\<lparr>keyS := k'\<rparr>) = Inr out'"
  then show "out = out'"
    by (auto simp: serializeWithoutKey_def split: if_splits)
qed


lemma leBytes_numeral:
  "leBytes (numeral k) w = ucast w # leBytes (pred_numeral k) (drop_bit 8 w)"
  by (simp add: numeral_eq_Suc)


theorem serializeWithoutKey_layout_witness:
  "serializeWithoutKey (\<lambda>k d r. word_of_nat (256 * length k + length d))
     \<lparr>keyS = Some [98, 97, 110, 100, 97, 110, 97], dataS = Some [115, 97, 117, 99, 101],
      isRecordS = True, numChildrenS = 2, checksum = 1285\<rparr>
     = Inl ErrInvalidChecksum \<and>
   (\<exists>reserved. length reserved = 16 \<and>
      serializeWithoutKey (\<lambda>k d r. word_of_nat (256 * length k + length d))
        \<lparr>keyS = Some [97, 112, 112, 108, 101], dataS = Some [115, 97, 117, 99, 101],
         isRecordS = True, numChildrenS = 2, checksum = 1285\<rparr>
        = Inr ([5, 5, 0, 0, 5, 0, 0, 0, 0, 0, 0, 0, 115, 97, 117, 99, 101, 2, 0] @ reserved))"
proof
  have "\<not> verifyChecksum (\<lambda>k d r. word_of_nat (256 * length k + length d))
     \<lparr>keyS = Some [98, 97, 110, 100, 97, 110, 97], dataS = Some [115, 97, 117, 99, 101],
      isRecordS = True, numChildrenS = 2, checksum = 1285\<rparr>"
    by (simp add: verifyChecksum_def calculateChecksum_def)
  then show "serializeWithoutKey (\<lambda>k d r. word_of_nat (256 * length k + length d))
     \<lparr>keyS = Some [98, 97, 110, 100, 97, 110, 97], dataS = Some [115, 97, 117, 99, 101],
      isRecordS = True, numChildrenS = 2, checksum = 1285\<rparr>
     = Inl ErrInvalidChecksum"
    by (rule serializeWithoutKey_layout [THEN conjunct1, rule_format])
next
  have "verifyChecksum (\<lambda>k d r. word_of_nat (256 * length k + length d))
     \<lparr>keyS = Some [97, 112, 112, 108, 101], dataS = Some [115, 97, 117, 99, 101],
      isRecordS = True, numChildrenS = 2, checksum = 1285\<rparr>"
    by (simp add: verifyChecksum_def calculateChecksum_def)
  from serializeWithoutKey_layout [THEN conjunct2, THEN conjunct1, rule_format, OF this]
  obtain out reserved where
    "serializeWithoutKey (\<lambda>k d r. word_of_nat (256 * length k + length d))
       \<lparr>keyS = Some [97, 112, 112, 108, 101], dataS = Some [115, 97, 117, 99, 101],
        isRecordS = True, numChildrenS = 2, checksum = 1285\<rparr> = Inr out"
    "out = leBytes 4 (1285 :: 32 word) @ leBytes 8 (word_of_nat 5 :: 64 word)
               @ [115, 97, 117, 99, 101] @ leBytes 2 (2 :: 16 word) @ reserved"
    "length reserved = 16"
    by (elim exE conjE) simp
  then show "\<exists>reserved. length reserved = 16 \<and>
      serializeWithoutKey (\<lambda>k d r. word_of_nat (256 * length k + length d))
        \<lparr>keyS = Some [97, 112, 112, 108, 101], dataS = Some [115, 97, 117, 99, 101],
         isRecordS = True, numChildrenS = 2, checksum = 1285\<rparr>
        = Inr ([5, 5, 0, 0, 5, 0, 0, 0, 0, 0, 0, 0, 115, 97, 117, 99, 101, 2, 0] @ reserved)"
    by (intro exI [of _ reserved]) (simp add: leBytes_numeral)
qed


section \<open>Siblings share no prefix\<close>

text \<open>The position that \<open>putLoop\<close> writes to is that of the child \<^verbatim>\<open>findCompatibleChild\<close> returns.\<close>

lemma compatiblePos_findCompatible:
  "(compatiblePos cs k = None \<longleftrightarrow> findCompatible cs k = None) \<and>
   (\<forall>j. compatiblePos cs k = Some j \<longrightarrow> j < length cs \<and> findCompatible cs k = Some (cs ! j))"
  by (induction cs) auto

lemma lcpLen_zero_iff: "lcpLen xs ys = 0 \<longleftrightarrow> set (take 1 xs) \<inter> set (take 1 ys) = {}"
  by (cases xs; cases ys) auto

lemma lcp_None_iff:
  "longestCommonPrefix a b = None \<longleftrightarrow> set (take 1 (bval a)) \<inter> set (take 1 (bval b)) = {}"
  by (simp add: longestCommonPrefix_def Let_def lcpLen_zero_iff)

lemma lcpLen_le: "lcpLen xs ys \<le> length xs \<and> lcpLen xs ys \<le> length ys"
  by (induction xs ys rule: lcpLen.induct) auto

lemma blen_lcp: "blen (longestCommonPrefix a b) = lcpLen (bval a) (bval b)"
  using lcpLen_le [of "bval a" "bval b"] by (simp add: longestCommonPrefix_def Let_def)

lemma blen_bval: "blen b = length (bval b)"
  by (cases b) simp_all

lemma bval_sliceFrom: "bval (sliceFrom n b) = drop n (bval b)"
  by (cases b) simp_all

lemma lcpLen_drop: "lcpLen (drop (lcpLen xs ys) xs) (drop (lcpLen xs ys) ys) = 0"
  by (induction xs ys rule: lcpLen.induct) auto

lemma lcpLen_full_take1:
  "lcpLen xs ys = length ys \<Longrightarrow> ys \<noteq> [] \<Longrightarrow> take 1 ys = take 1 xs"
  by (cases xs; cases ys) (auto split: if_splits)

lemma lcpLen_pos_take1: "0 < lcpLen xs ys \<Longrightarrow> take 1 (take (lcpLen xs ys) xs) = take 1 xs"
  by (cases xs; cases ys) (auto split: if_splits)

lemma firstByte_distinct: "distinct (firstByte c)"
  by (cases "bval (key c)") (simp_all add: firstByte_def)

lemma set_heads: "set (heads cs) = (\<Union>c\<in>set cs. set (firstByte c))"
  by (simp add: heads_def)

lemma heads_simps [simp]: "heads [] = []" "heads (c # cs) = firstByte c @ heads cs"
  by (simp_all add: heads_def)

lemma siblingsDisjoint_heads: "siblingsDisjoint cs \<longleftrightarrow> distinct (heads cs)"
proof (induction cs)
  case Nil
  show ?case by simp
next
  case (Cons c cs)
  have "list_all (\<lambda>d. longestCommonPrefix (key c) (key d) = None) cs
      \<longleftrightarrow> set (firstByte c) \<inter> set (heads cs) = {}"
    by (auto simp: list_all_iff lcp_None_iff set_heads firstByte_def)
  with Cons show ?case by (auto simp: firstByte_distinct)
qed

lemma heads_insertAfter:
  "set (heads (insertAfter c cs)) = set (firstByte c) \<union> set (heads cs) \<and>
   (distinct (heads (insertAfter c cs)) \<longleftrightarrow>
      distinct (heads cs) \<and> set (firstByte c) \<inter> set (heads cs) = {})"
  by (induction cs) (auto simp: firstByte_distinct)

lemma heads_insertChild:
  "set (heads (insertChild c cs)) = set (firstByte c) \<union> set (heads cs) \<and>
   (distinct (heads (insertChild c cs)) \<longleftrightarrow>
      distinct (heads cs) \<and> set (firstByte c) \<inter> set (heads cs) = {})"
  using heads_insertAfter [of c "tl cs"]
  by (cases cs) (auto simp: firstByte_distinct)

lemma set_insertAfter: "set (insertAfter c cs) = insert c (set cs)"
  by (induction cs) auto

lemma set_insertChild: "set (insertChild c cs) = insert c (set cs)"
  by (cases cs) (auto simp: set_insertAfter)

lemma removeByKey_heads:
  "removeByKey k cs = Some cs' \<Longrightarrow> distinct (heads cs) \<Longrightarrow>
     distinct (heads cs') \<and> set (heads cs) = set (take 1 (bval k)) \<union> set (heads cs') \<and>
     set (take 1 (bval k)) \<inter> set (heads cs') = {} \<and> set cs' \<subseteq> set cs"
proof (induction cs arbitrary: cs')
  case Nil
  then show ?case by simp
next
  case (Cons c cs)
  show ?case
  proof (cases "bytesEqual (key c) k")
    case True
    with Cons.prems show ?thesis
      by (auto simp: bytesEqual_def firstByte_def)
  next
    case False
    with Cons.prems obtain cs1 where r: "removeByKey k cs = Some cs1" "cs' = c # cs1"
      by auto
    from Cons.IH [OF r(1)] Cons.prems(2) r(2) show ?thesis
      by auto
  qed
qed

lemma removeByKey_mem:
  "c \<in> set cs \<Longrightarrow> \<exists>cs'. removeByKey (key c) cs = Some cs'"
  by (induction cs) (auto simp: bytesEqual_def)

lemma heads_update:
  assumes "i < length cs" and "firstByte c' = firstByte (cs ! i)"
  shows "heads (cs[i := c']) = heads cs"
proof -
  have "(map firstByte cs)[i := firstByte c'] = (map firstByte cs)[i := map firstByte cs ! i]"
    using assms by simp
  then show ?thesis by (simp add: heads_def map_update)
qed


lemma treeDisjoint_iff:
  "treeDisjoint n \<longleftrightarrow> distinct (heads (children n)) \<and> (\<forall>c\<in>set (children n). treeDisjoint c)"
  by (cases n) (simp add: siblingsDisjoint_heads list_all_iff)

lemma setKey_sel [simp]:
  "key (setKey n k) = k" "children (setKey n k) = children n"
  by (cases n, simp)+

lemma setValue_sel [simp]:
  "key (fst (setValue mkID bs n v)) = key n"
  "children (fst (setValue mkID bs n v)) = children n"
  by (cases n, simp add: Let_def split: prod.splits)+

lemma addChild_sel [simp]:
  "key (addChild n c) = key n" "children (addChild n c) = insertChild c (children n)"
  by (cases n, simp)+

lemma setChildAt_sel [simp]:
  "key (setChildAt n i c) = key n" "children (setChildAt n i c) = (children n)[i := c]"
  by (cases n, simp)+

lemma keyNode_sel [simp]: "key (keyNode k) = k" "children (keyNode k) = []"
  by (simp_all add: keyNode_def)

lemma removeChild_Inr:
  "removeChild n c = Inr n' \<Longrightarrow>
     key n' = key n \<and> removeByKey (key c) (children n) = Some (children n')"
  by (cases n) (auto split: option.splits)

lemma removeChild_mem:
  "c \<in> set (children n) \<Longrightarrow> \<exists>n'. removeChild n c = Inr n'"
  using removeByKey_mem [of c "children n"] by (cases n) auto

lemma firstByte_key: "bval (key c') = bval (key c) \<Longrightarrow> firstByte c' = firstByte c"
  by (simp add: firstByte_def)

lemma treeDisjoint_children_eq:
  "children c' = children c \<Longrightarrow> treeDisjoint c' = treeDisjoint c"
  by (simp add: treeDisjoint_iff [of c] treeDisjoint_iff [of c'])

lemma treeDisjoint_leaf: "children n = [] \<Longrightarrow> treeDisjoint n"
  by (simp add: treeDisjoint_iff [of n])

text \<open>Writing a child back that kept its first byte.\<close>

lemma treeDisjoint_setChildAt:
  assumes "treeDisjoint parent" and "i < length (children parent)"
    and "treeDisjoint c'" and "firstByte c' = firstByte (children parent ! i)"
  shows "treeDisjoint (setChildAt parent i c')"
proof -
  have "set ((children parent)[i := c']) \<subseteq> insert c' (set (children parent))"
    by (rule set_update_subset_insert)
  with assms show ?thesis
    by (auto simp: treeDisjoint_iff [of parent] treeDisjoint_iff [of "setChildAt parent i c'"]
        heads_update)
qed

text \<open>Unlinking a child and linking a node whose first byte is the child's, or none.\<close>

lemma treeDisjoint_relink:
  assumes "treeDisjoint parent" and "removeChild parent current = Inr p1"
    and "treeDisjoint x" and "set (firstByte x) \<subseteq> set (firstByte current)"
  shows "treeDisjoint (addChild p1 x)"
proof -
  from removeChild_Inr [OF assms(2)]
  have r: "removeByKey (key current) (children parent) = Some (children p1)" by simp
  from assms(1) have d: "distinct (heads (children parent))"
    and m: "\<forall>c\<in>set (children parent). treeDisjoint c"
    by (simp_all add: treeDisjoint_iff [of parent])
  from removeByKey_heads [OF r d]
  have d1: "distinct (heads (children p1))"
    and dj: "set (firstByte current) \<inter> set (heads (children p1)) = {}"
    and sub: "set (children p1) \<subseteq> set (children parent)"
    by (simp_all add: firstByte_def)
  from dj assms(4) have "set (firstByte x) \<inter> set (heads (children p1)) = {}" by blast
  with d1 have "distinct (heads (insertChild x (children p1)))"
    by (simp add: heads_insertChild)
  moreover have "\<forall>c\<in>set (insertChild x (children p1)). treeDisjoint c"
    using m sub assms(3) by (auto simp: set_insertChild)
  ultimately show ?thesis by (simp add: treeDisjoint_iff [of "addChild p1 x"])
qed

lemma compatiblePos_None:
  "compatiblePos cs k = None \<Longrightarrow> set (take 1 (bval k)) \<inter> set (heads cs) = {}"
proof (induction cs)
  case Nil
  show ?case by simp
next
  case (Cons c cs)
  from Cons.prems have a: "lcpLen (bval (key c)) (bval k) = 0"
    and b: "compatiblePos cs k = None"
    by (auto simp: blen_lcp split: if_splits)
  from a have "set (take 1 (bval k)) \<inter> set (firstByte c) = {}"
    by (auto simp: lcpLen_zero_iff firstByte_def)
  with Cons.IH [OF b] show ?case by auto
qed

text \<open>Linking a new leaf under a node none of whose children shares a prefix with it.\<close>

lemma treeDisjoint_addLeaf:
  assumes "treeDisjoint n" and "children x = []"
    and "compatiblePos (children n) k = None" and "bval (key x) = bval k"
  shows "treeDisjoint (addChild n x)"
proof -
  from compatiblePos_None [OF assms(3)] assms(4)
  have "set (firstByte x) \<inter> set (heads (children n)) = {}" by (simp add: firstByte_def)
  with assms(1) have "distinct (heads (insertChild x (children n)))"
    by (simp add: heads_insertChild treeDisjoint_iff [of n])
  moreover have "\<forall>c\<in>set (insertChild x (children n)). treeDisjoint c"
    using assms(1,2) by (auto simp: set_insertChild treeDisjoint_iff [of n] treeDisjoint_leaf)
  ultimately show ?thesis by (simp add: treeDisjoint_iff [of "addChild n x"])
qed

text \<open>Two nodes that share no prefix under a node without children.\<close>

lemma treeDisjoint_pair:
  assumes "children n = []" and "treeDisjoint c" and "treeDisjoint x"
    and "set (firstByte c) \<inter> set (firstByte x) = {}"
  shows "treeDisjoint (addChild (addChild n c) x)"
proof -
  have "children (addChild (addChild n c) x) = insertChild x [c]"
    using assms(1) by simp
  moreover have "distinct (heads (insertChild x [c]))"
    using assms(4) by (auto simp: heads_insertChild firstByte_distinct)
  moreover have "\<forall>d\<in>set (insertChild x [c]). treeDisjoint d"
    using assms(2,3) by (auto simp: set_insertChild)
  ultimately show ?thesis by (simp add: treeDisjoint_iff [of "addChild (addChild n c) x"])
qed

text \<open>The new parent of a split.\<close>

lemma treeDisjoint_split:
  assumes "treeDisjoint current" and "children newNode = []"
    and "bval (key newNode) = bval k"
    and "prefix = longestCommonPrefix (key current) k"
  shows "treeDisjoint (addChild (addChild (keyNode prefix)
            (setKey current (sliceFrom (blen prefix) (key current))))
            (setKey newNode (sliceFrom (blen prefix) (key newNode))))"
proof (rule treeDisjoint_pair)
  show "children (keyNode prefix) = []" by simp
  show "treeDisjoint (setKey current (sliceFrom (blen prefix) (key current)))"
    using assms(1)
      treeDisjoint_children_eq [of "setKey current (sliceFrom (blen prefix) (key current))" current]
    by simp
  show "treeDisjoint (setKey newNode (sliceFrom (blen prefix) (key newNode)))"
    using assms(2) by (simp add: treeDisjoint_leaf)
  show "set (firstByte (setKey current (sliceFrom (blen prefix) (key current)))) \<inter>
      set (firstByte (setKey newNode (sliceFrom (blen prefix) (key newNode)))) = {}"
    using lcpLen_drop [of "bval (key current)" "bval k"] assms(3,4)
    by (simp add: firstByte_def bval_sliceFrom blen_lcp lcpLen_zero_iff)
qed


lemma firstByte_prefix:
  assumes "0 < lcpLen (bval (key current)) (bval k)"
  shows "firstByte (keyNode (longestCommonPrefix (key current) k)) = firstByte current"
  using assms lcpLen_pos_take1 [OF assms]
  by (simp add: firstByte_def longestCommonPrefix_def Let_def)

lemma treeDisjoint_single:
  assumes "children n = []" and "treeDisjoint c"
  shows "treeDisjoint (addChild n c)"
  using assms by (simp add: treeDisjoint_iff [of "addChild n c"] firstByte_distinct)


lemma putLoop_treeDisjoint:
  assumes "treeDisjoint parent" and "i < length (children parent)"
    and "children newNode = []" and "bval (key newNode) = bval k"
  shows "treeDisjoint (fst (snd (putLoop mkID parent i k newNode v bs))) \<and>
         key (fst (snd (putLoop mkID parent i k newNode v bs))) = key parent"
  using assms
proof (induction "size (children parent ! i)" arbitrary: parent i k newNode rule: less_induct)
  case less
  let ?current = "children parent ! i"
  let ?prefix = "longestCommonPrefix (key ?current) k"
  let ?pl = "blen ?prefix"
  have mem: "?current \<in> set (children parent)" using less.prems(2) by simp
  have cur: "treeDisjoint ?current"
    using less.prems(1) mem by (simp add: treeDisjoint_iff [of parent])
  have pl: "?pl = lcpLen (bval (key ?current)) (bval k)" by (rule blen_lcp)
  have nk: "blen (key newNode) = length (bval k)"
    using less.prems(4) by (simp add: blen_bval)
  from removeChild_mem [OF mem] obtain p1 where p1: "removeChild parent ?current = Inr p1"
    by (elim exE)
  have kp1: "key p1 = key parent" using removeChild_Inr [OF p1] by simp
  consider
    (exact) "?pl = blen (key ?current) \<and> ?pl = blen (key newNode)"
  | (reparent) "\<not> (?pl = blen (key ?current) \<and> ?pl = blen (key newNode))"
      "?pl = blen (key newNode) \<and> ?pl < blen (key ?current)"
  | (split) "\<not> (?pl = blen (key ?current) \<and> ?pl = blen (key newNode))"
      "\<not> (?pl = blen (key newNode) \<and> ?pl < blen (key ?current))"
      "0 < ?pl \<and> ?pl < blen (key ?current)"
  | (descend) "\<not> (?pl = blen (key ?current) \<and> ?pl = blen (key newNode))"
      "\<not> (?pl = blen (key newNode) \<and> ?pl < blen (key ?current))"
      "\<not> (0 < ?pl \<and> ?pl < blen (key ?current))"
    by blast
  then show ?case
  proof cases
    case exact
    let ?c = "fst (setValue mkID bs ?current v)"
    have res: "fst (snd (putLoop mkID parent i k newNode v bs)) = setChildAt parent i ?c"
      by (subst putLoop.simps, unfold Let_def, subst if_P [OF exact])
        (simp add: case_prod_beta)
    have "treeDisjoint ?c"
      using cur treeDisjoint_children_eq [of ?c ?current] by simp
    moreover have "firstByte ?c = firstByte ?current"
      by (simp add: firstByte_def)
    ultimately show ?thesis
      using res treeDisjoint_setChildAt [OF less.prems(1,2), of ?c] by simp
  next
    case reparent
    let ?c = "setKey ?current (sliceFrom (blen (key newNode)) (key ?current))"
    let ?x = "addChild newNode ?c"
    have res: "fst (snd (putLoop mkID parent i k newNode v bs)) = addChild p1 ?x"
      by (subst putLoop.simps, unfold Let_def, subst if_not_P [OF reparent(1)],
          subst if_P [OF reparent(2)]) (simp add: p1)
    have "treeDisjoint ?c"
      using cur treeDisjoint_children_eq [of ?c ?current] by simp
    then have x: "treeDisjoint ?x"
      using less.prems(3) by (rule treeDisjoint_single [rotated])
    have "set (firstByte ?x) \<subseteq> set (firstByte ?current)"
    proof (cases "bval k = []")
      case True
      then show ?thesis using less.prems(4) by (simp add: firstByte_def)
    next
      case False
      have "lcpLen (bval (key ?current)) (bval k) = length (bval k)"
        using reparent(2) pl nk by simp
      from lcpLen_full_take1 [OF this False] show ?thesis
        using less.prems(4) by (simp add: firstByte_def)
    qed
    from treeDisjoint_relink [OF less.prems(1) p1 x this] res kp1 show ?thesis by simp
  next
    case split
    let ?x = "addChild (addChild (keyNode ?prefix)
            (setKey ?current (sliceFrom (blen ?prefix) (key ?current))))
            (setKey newNode (sliceFrom (blen ?prefix) (key newNode)))"
    have res: "fst (snd (putLoop mkID parent i k newNode v bs)) = addChild p1 ?x"
      by (subst putLoop.simps, unfold Let_def, subst if_not_P [OF split(1)],
          subst if_not_P [OF split(2)], subst if_P [OF split(3)])
        (simp add: p1 splitNodeInner_def)
    have x: "treeDisjoint ?x"
      using cur less.prems(3,4) by (rule treeDisjoint_split) simp
    have "0 < lcpLen (bval (key ?current)) (bval k)" using split(3) pl by simp
    from firstByte_prefix [OF this] have "set (firstByte ?x) \<subseteq> set (firstByte ?current)"
      by (simp add: firstByte_def)
    from treeDisjoint_relink [OF less.prems(1) p1 x this] res kp1 show ?thesis by simp
  next
    case descend
    let ?k' = "sliceFrom ?pl k"
    let ?n' = "setKey newNode (sliceFrom ?pl (key newNode))"
    have n'c: "children ?n' = []" using less.prems(3) by simp
    have n'k: "bval (key ?n') = bval ?k'"
      using less.prems(4) by (simp add: bval_sliceFrom)
    show ?thesis
    proof (cases "compatiblePos (children ?current) ?k'")
      case None
      let ?c = "addChild ?current ?n'"
      have res: "fst (snd (putLoop mkID parent i k newNode v bs)) = setChildAt parent i ?c"
        by (subst putLoop.simps, unfold Let_def, subst if_not_P [OF descend(1)],
            subst if_not_P [OF descend(2)], subst if_not_P [OF descend(3)])
          (simp add: None)
      have "treeDisjoint ?c"
        using cur n'c None n'k by (rule treeDisjoint_addLeaf)
      moreover have "firstByte ?c = firstByte ?current"
        by (simp add: firstByte_def)
      ultimately show ?thesis
        using res treeDisjoint_setChildAt [OF less.prems(1,2), of ?c] by simp
    next
      case (Some j)
      let ?c = "fst (snd (putLoop mkID ?current j ?k' ?n' v bs))"
      have res: "fst (snd (putLoop mkID parent i k newNode v bs)) = setChildAt parent i ?c"
        by (subst putLoop.simps, unfold Let_def, subst if_not_P [OF descend(1)],
            subst if_not_P [OF descend(2)], subst if_not_P [OF descend(3)])
          (simp add: Some case_prod_beta)
      have j: "j < length (children ?current)" using Some by (rule compatiblePos_less)
      then have "size (children ?current ! j) < size ?current" by (rule size_child_less)
      from less.hyps [OF this cur j n'c n'k]
      have "treeDisjoint ?c" and "key ?c = key ?current" by simp_all
      then show ?thesis
        using res treeDisjoint_setChildAt [OF less.prems(1,2), of ?c]
        by (simp add: firstByte_def)
    qed
  qed
qed


lemma putRoot_treeDisjoint:
  assumes "treeDisjoint current" and "children newNode = []"
    and "bval (key newNode) = bval k"
  shows "\<exists>r'. root (snd (putRoot mkID a current k newNode v)) = Some r' \<and> treeDisjoint r'"
proof -
  let ?prefix = "longestCommonPrefix (key current) k"
  let ?pl = "blen ?prefix"
  have pl: "?pl = lcpLen (bval (key current)) (bval k)" by (rule blen_lcp)
  consider
    (exact) "?pl = blen (key current) \<and> ?pl = blen (key newNode)"
  | (reparent) "\<not> (?pl = blen (key current) \<and> ?pl = blen (key newNode))"
      "?pl = blen (key newNode) \<and> ?pl < blen (key current)"
  | (split) "\<not> (?pl = blen (key current) \<and> ?pl = blen (key newNode))"
      "\<not> (?pl = blen (key newNode) \<and> ?pl < blen (key current))"
      "0 < ?pl \<and> ?pl < blen (key current)"
  | (descend) "\<not> (?pl = blen (key current) \<and> ?pl = blen (key newNode))"
      "\<not> (?pl = blen (key newNode) \<and> ?pl < blen (key current))"
      "\<not> (0 < ?pl \<and> ?pl < blen (key current))"
    by blast
  then show ?thesis
  proof cases
    case exact
    let ?c = "fst (setValue mkID (blobs a) current v)"
    have res: "root (snd (putRoot mkID a current k newNode v)) = Some ?c"
      by (unfold putRoot_def Let_def, subst if_P [OF exact]) (simp add: case_prod_beta)
    have "treeDisjoint ?c"
      using assms(1) treeDisjoint_children_eq [of ?c current] by simp
    with res show ?thesis by simp
  next
    case reparent
    let ?c = "setKey current (sliceFrom (blen (key newNode)) (key current))"
    have res: "root (snd (putRoot mkID a current k newNode v)) = Some (addChild newNode ?c)"
      by (unfold putRoot_def Let_def, subst if_not_P [OF reparent(1)],
          subst if_P [OF reparent(2)]) simp
    have "treeDisjoint ?c"
      using assms(1) treeDisjoint_children_eq [of ?c current] by simp
    then have "treeDisjoint (addChild newNode ?c)"
      using assms(2) by (rule treeDisjoint_single [rotated])
    with res show ?thesis by simp
  next
    case split
    let ?x = "addChild (addChild (keyNode ?prefix)
            (setKey current (sliceFrom (blen ?prefix) (key current))))
            (setKey newNode (sliceFrom (blen ?prefix) (key newNode)))"
    have res: "root (snd (putRoot mkID a current k newNode v)) = Some ?x"
      by (unfold putRoot_def Let_def, subst if_not_P [OF split(1)],
          subst if_not_P [OF split(2)], subst if_P [OF split(3)])
        (simp add: splitNodeRoot_def)
    have "treeDisjoint ?x"
      using assms by (rule treeDisjoint_split) simp
    with res show ?thesis by simp
  next
    case descend
    let ?k' = "sliceFrom ?pl k"
    let ?n' = "setKey newNode (sliceFrom ?pl (key newNode))"
    have n'c: "children ?n' = []" using assms(2) by simp
    have n'k: "bval (key ?n') = bval ?k'"
      using assms(3) by (simp add: bval_sliceFrom)
    show ?thesis
    proof (cases "compatiblePos (children current) ?k'")
      case None
      show ?thesis
      proof (cases "key current = None \<or> ?pl = blen (key current)")
        case True
        have res: "root (snd (putRoot mkID a current k newNode v)) = Some (addChild current ?n')"
          by (unfold putRoot_def Let_def, subst if_not_P [OF descend(1)],
              subst if_not_P [OF descend(2)], subst if_not_P [OF descend(3)])
            (simp add: None True)
        have "treeDisjoint (addChild current ?n')"
          using assms(1) n'c None n'k by (rule treeDisjoint_addLeaf)
        with res show ?thesis by simp
      next
        case False
        let ?x = "addChild (addChild (keyNode ?prefix) current) ?n'"
        have res: "root (snd (putRoot mkID a current k newNode v)) = Some ?x"
          by (unfold putRoot_def Let_def, subst if_not_P [OF descend(1)],
              subst if_not_P [OF descend(2)], subst if_not_P [OF descend(3)])
            (simp add: None False)
        have "?pl \<le> blen (key current)"
          using lcpLen_le [of "bval (key current)" "bval k"] pl by (simp add: blen_bval)
        with False descend(3) have z: "lcpLen (bval (key current)) (bval k) = 0"
          using pl by auto
        have "bval (key ?n') = bval k"
          using z pl assms(3) by (simp add: bval_sliceFrom)
        moreover have "set (take 1 (bval (key current))) \<inter> set (take 1 (bval k)) = {}"
          using z by (simp only: lcpLen_zero_iff)
        ultimately have "set (firstByte current) \<inter> set (firstByte ?n') = {}"
          by (simp only: firstByte_def)
        with assms(1) n'c have "treeDisjoint ?x"
          by (intro treeDisjoint_pair) (simp_all add: treeDisjoint_leaf)
        with res show ?thesis by simp
      qed
    next
      case (Some j)
      let ?c = "fst (snd (putLoop mkID current j ?k' ?n' v (blobs a)))"
      have res: "root (snd (putRoot mkID a current k newNode v)) = Some ?c"
        by (unfold putRoot_def Let_def, subst if_not_P [OF descend(1)],
            subst if_not_P [OF descend(2)], subst if_not_P [OF descend(3)])
          (simp add: Some case_prod_beta)
      have j: "j < length (children current)" using Some by (rule compatiblePos_less)
      from putLoop_treeDisjoint [OF assms(1) j n'c n'k] have "treeDisjoint ?c" by simp
      with res show ?thesis by simp
    qed
  qed
qed

lemma Put_valid:
  assumes "k \<noteq> None" and "\<not> maxKeyBytes < blen k" and "\<not> maxValueBytes < blen v"
    and "setValue mkID (blobs a) (setKey emptyNode k) v = (newNode, bs)"
  shows "Put mkID a k v =
     (if empty (a\<lparr>blobs := bs\<rparr>) then
        (None, a\<lparr>blobs := bs, root := Some newNode, numNodes := 1, numRecords := 1\<rparr>)
      else
        (case root a of
           None \<Rightarrow> (Some Panic, a\<lparr>blobs := bs\<rparr>)
         | Some current \<Rightarrow>
             if 0 < blen (key current) \<and> longestCommonPrefix (key current) k = None
             then
               (None, a\<lparr>blobs := bs,
                         root := Some (addChild (addChild (keyNode None) current) newNode),
                         numNodes := numNodes a + 2,
                         numRecords := numRecords a + 1\<rparr>)
             else putRoot mkID (a\<lparr>blobs := bs\<rparr>) current k newNode v))"
  using assms by (cases k; cases "root a") (simp_all add: Put_def Let_def)

lemma Put_arcDisjoint:
  assumes "arcDisjoint a" and "Put mkID a k v = (None, a')"
  shows "arcDisjoint a'"
proof -
  obtain newNode bs where sv: "setValue mkID (blobs a) (setKey emptyNode k) v = (newNode, bs)"
    by (cases "setValue mkID (blobs a) (setKey emptyNode k) v")
  have nn: "newNode = fst (setValue mkID (blobs a) (setKey emptyNode k) v)" using sv by simp
  have nc: "children newNode = []"
    unfolding nn by (simp only: setValue_sel setKey_sel) (simp add: emptyNode_def)
  have nk: "bval (key newNode) = bval k" unfolding nn by simp
  let ?a1 = "a\<lparr>blobs := bs\<rparr>"
  from assms(2) have valid: "k \<noteq> None" "\<not> maxKeyBytes < blen k" "\<not> maxValueBytes < blen v"
    by (auto simp: Put_def split: if_splits)
  note eq = Put_valid [OF valid sv]
  show ?thesis
  proof (cases "empty ?a1")
    case True
    have "Put mkID a k v =
        (None, a\<lparr>blobs := bs, root := Some newNode, numNodes := 1, numRecords := 1\<rparr>)"
      by (subst eq, subst if_P [OF True]) (rule refl)
    with assms(2) nc show ?thesis by (auto simp: arcDisjoint_def treeDisjoint_leaf)
  next
    case ne: False
    show ?thesis
    proof (cases "root a")
      case None
      have "Put mkID a k v = (Some Panic, ?a1)"
        by (subst eq, subst if_not_P [OF ne]) (simp add: None)
      with assms(2) show ?thesis by simp
    next
      case (Some current)
      with assms(1) have cur: "treeDisjoint current" by (simp add: arcDisjoint_def)
      show ?thesis
      proof (cases "0 < blen (key current) \<and> longestCommonPrefix (key current) k = None")
        case True
        let ?x = "addChild (addChild (keyNode None) current) newNode"
        have "Put mkID a k v = (None, a\<lparr>blobs := bs, root := Some ?x,
            numNodes := numNodes a + 2, numRecords := numRecords a + 1\<rparr>)"
          by (subst eq, subst if_not_P [OF ne], simp only: Some option.case, subst if_P [OF True])
            (rule refl)
        with assms(2) have r: "root a' = Some ?x" by auto
        have "set (firstByte current) \<inter> set (firstByte newNode) = {}"
          using True nk by (simp add: lcp_None_iff firstByte_def)
        with cur nc have "treeDisjoint ?x"
          by (intro treeDisjoint_pair) (simp_all add: treeDisjoint_leaf)
        with r show ?thesis by (simp add: arcDisjoint_def)
      next
        case False
        have "Put mkID a k v = putRoot mkID ?a1 current k newNode v"
          by (subst eq, subst if_not_P [OF ne], simp only: Some option.case,
              subst if_not_P [OF False]) (rule refl)
        with assms(2) have "a' = snd (putRoot mkID ?a1 current k newNode v)" by simp
        with putRoot_treeDisjoint [OF cur nc nk, of mkID ?a1 v] show ?thesis
          by (auto simp: arcDisjoint_def)
      qed
    qed
  qed
qed

lemma putAll_arcDisjoint:
  "arcDisjoint a \<Longrightarrow> putAll mkID a kvs = Some a' \<Longrightarrow> arcDisjoint a'"
proof (induction kvs arbitrary: a)
  case Nil
  then show ?case by simp
next
  case (Cons kv kvs)
  obtain k v where kv: "kv = (k, v)" by (cases kv)
  obtain e a1 where p: "Put mkID a k v = (e, a1)" by (cases "Put mkID a k v")
  with Cons.prems(2) kv have e: "e = None" and rest: "putAll mkID a1 kvs = Some a'"
    by (auto split: option.splits)
  from Put_arcDisjoint [OF Cons.prems(1)] p e have "arcDisjoint a1" by simp
  from Cons.IH [OF this rest] show ?case .
qed

lemma treeDisjoint_nodesOf:
  "treeDisjoint r \<Longrightarrow> n \<in> set (nodesOf r) \<Longrightarrow> siblingsDisjoint (children n)"
proof (induction r)
  case (Node k r b nc cs d)
  from Node.prems(2) consider "n = Node k r b nc cs d"
    | c where "c \<in> set cs" "n \<in> set (nodesOf c)"
    by auto
  then show ?case
  proof cases
    case 1
    with Node.prems(1) show ?thesis by simp
  next
    case 2
    with Node.prems(1) have "treeDisjoint c" by (simp add: list_all_iff)
    from Node.IH [OF 2(1) this 2(2)] show ?thesis .
  qed
qed


lemma lcp_None_commute:
  "longestCommonPrefix a b = None \<longleftrightarrow> longestCommonPrefix b a = None"
  by (auto simp: lcp_None_iff)

lemma siblingsDisjoint_less:
  "siblingsDisjoint cs \<Longrightarrow> i < j \<Longrightarrow> j < length cs \<Longrightarrow>
     longestCommonPrefix (key (cs ! i)) (key (cs ! j)) = None"
proof (induction cs arbitrary: i j)
  case Nil
  then show ?case by simp
next
  case (Cons c cs)
  from Cons.prems(2) obtain j' where j: "j = Suc j'" by (cases j) auto
  with Cons.prems(3) have j': "j' < length cs" by simp
  show ?case
  proof (cases i)
    case 0
    from Cons.prems(1) j' have "longestCommonPrefix (key c) (key (cs ! j')) = None"
      by (simp add: list_all_iff)
    with 0 j show ?thesis by simp
  next
    case (Suc i')
    with Cons.prems(2) j have "i' < j'" by simp
    from Cons.IH [OF _ this j'] Cons.prems(1) Suc j show ?thesis by simp
  qed
qed

lemma siblingsDisjoint_nth:
  assumes "siblingsDisjoint cs" and "i < length cs" and "j < length cs" and "i \<noteq> j"
  shows "longestCommonPrefix (key (cs ! i)) (key (cs ! j)) = None"
proof (cases "i < j")
  case True
  with assms show ?thesis by (simp add: siblingsDisjoint_less)
next
  case False
  with assms(4) have "j < i" by simp
  from siblingsDisjoint_less [OF assms(1) this assms(2)] show ?thesis
    by (simp add: lcp_None_commute)
qed

lemma findCompatible_filter:
  "findCompatible cs p = (case filter (sharesPrefix p) cs of [] \<Rightarrow> None | c # ds \<Rightarrow> Some c)"
  by (induction cs) (simp_all add: sharesPrefix_def)

lemma sharesPrefix_firstByte:
  assumes "sharesPrefix p c"
  shows "firstByte c = take 1 (bval p) \<and> take 1 (bval p) \<noteq> []"
proof -
  from assms have "0 < lcpLen (bval (key c)) (bval p)"
    by (simp add: sharesPrefix_def blen_lcp)
  then show ?thesis
    by (cases "bval (key c)"; cases "bval p") (auto simp: firstByte_def split: if_splits)
qed

lemma sharesPrefix_heads:
  "c \<in> set cs \<Longrightarrow> sharesPrefix p c \<Longrightarrow> set (take 1 (bval p)) \<subseteq> set (heads cs)"
  using sharesPrefix_firstByte [of p c] by (auto simp: set_heads)

lemma filter_sharesPrefix_le1:
  "distinct (heads cs) \<Longrightarrow> length (filter (sharesPrefix p) cs) \<le> 1"
proof (induction cs)
  case Nil
  show ?case by simp
next
  case (Cons c cs)
  from Cons.prems have d: "distinct (heads cs)"
    and dj: "set (firstByte c) \<inter> set (heads cs) = {}" by simp_all
  show ?case
  proof (cases "sharesPrefix p c")
    case False
    with Cons.IH [OF d] show ?thesis by simp
  next
    case True
    from sharesPrefix_firstByte [OF True]
    have fb: "firstByte c = take 1 (bval p)" "take 1 (bval p) \<noteq> []" by simp_all
    have "filter (sharesPrefix p) cs = []"
    proof (rule ccontr)
      assume "filter (sharesPrefix p) cs \<noteq> []"
      then obtain d where "d \<in> set cs" "sharesPrefix p d"
        by (auto simp: filter_empty_conv)
      from sharesPrefix_heads [OF this] have "set (take 1 (bval p)) \<subseteq> set (heads cs)" .
      with dj fb show False by (cases "take 1 (bval p)") auto
    qed
    with True show ?thesis by simp
  qed
qed

text \<open>
  C8: in every tree that a sequence of successful calls of \<^verbatim>\<open>Put\<close> makes from the
  empty tree, no two children of one node have keys that share a non-empty common
  prefix. So for every probe key and every node of such a tree, at most one child
  shares a non-empty prefix with the probe, and \<^verbatim>\<open>findCompatibleChild\<close> returns that
  child, or nil when there is none.
\<close>

theorem siblings_share_no_prefix:
  assumes "putAll mkID New kvs = Some a" and "root a = Some r" and "n \<in> set (nodesOf r)"
  shows "(\<forall>i j. i < length (children n) \<and> j < length (children n) \<and> i \<noteq> j \<longrightarrow>
            longestCommonPrefix (key (children n ! i)) (key (children n ! j)) = None) \<and>
         length (filter (sharesPrefix probe) (children n)) \<le> 1 \<and>
         findCompatibleChild n probe =
           (case filter (sharesPrefix probe) (children n) of [] \<Rightarrow> None | c # cs \<Rightarrow> Some c)"
proof -
  have "arcDisjoint New" by (simp add: arcDisjoint_def New_def)
  from putAll_arcDisjoint [OF this assms(1)] assms(2) have "treeDisjoint r"
    by (simp add: arcDisjoint_def)
  from treeDisjoint_nodesOf [OF this assms(3)] have sd: "siblingsDisjoint (children n)" .
  then have "distinct (heads (children n))" by (simp add: siblingsDisjoint_heads)
  then have "length (filter (sharesPrefix probe) (children n)) \<le> 1"
    by (rule filter_sharesPrefix_le1)
  moreover have "\<forall>i j. i < length (children n) \<and> j < length (children n) \<and> i \<noteq> j \<longrightarrow>
            longestCommonPrefix (key (children n ! i)) (key (children n ! j)) = None"
    using siblingsDisjoint_nth [OF sd] by simp
  ultimately show ?thesis
    by (simp add: findCompatibleChild_def findCompatible_filter)
qed


theorem siblings_share_no_prefix_witness:
  "putAll (\<lambda>v. v) New
     [(Some [1, 2, 3], Some [10]), (Some [1, 2, 4], Some [11]), (Some [1, 5], Some [12])]
     = Some \<lparr>root = Some (Node (Some [1]) False False 2
               [Node (Some [2]) False False 2
                  [Node (Some [3]) True False 0 [] (Some [10]),
                   Node (Some [4]) True False 0 [] (Some [11])] None,
                Node (Some [5]) True False 0 [] (Some [12])] None),
             numNodes = 5, numRecords = 3, blobs = Map.empty\<rparr> \<and>
   findCompatibleChild (Node (Some [1]) False False 2
               [Node (Some [2]) False False 2
                  [Node (Some [3]) True False 0 [] (Some [10]),
                   Node (Some [4]) True False 0 [] (Some [11])] None,
                Node (Some [5]) True False 0 [] (Some [12])] None) (Some [2, 9])
     = Some (Node (Some [2]) False False 2
                  [Node (Some [3]) True False 0 [] (Some [10]),
                   Node (Some [4]) True False 0 [] (Some [11])] None) \<and>
   longestCommonPrefix (Some [2]) (Some [5]) = None"
proof -
  let ?C = "Node (Some [2]) False False 2
                  [Node (Some [3]) True False 0 [] (Some [10]),
                   Node (Some [4]) True False 0 [] (Some [11])] None"
  let ?R = "Node (Some [1]) False False 2 [?C, Node (Some [5]) True False 0 [] (Some [12])] None"
  let ?A = "\<lparr>root = Some ?R, numNodes = 5, numRecords = 3, blobs = Map.empty\<rparr>"
  have h1: "putAll (\<lambda>v. v) New
     [(Some [1, 2, 3], Some [10]), (Some [1, 2, 4], Some [11]), (Some [1, 5], Some [12])]
     = Some ?A"
    by (simp add: eval_defs)
  have h2: "root ?A = Some ?R" by simp
  have h3: "?R \<in> set (nodesOf ?R)" by simp
  note t = siblings_share_no_prefix [OF h1 h2 h3, of "Some [2, 9]"]
  have f: "filter (sharesPrefix (Some [2, 9])) (children ?R) = [?C]"
    by (simp add: sharesPrefix_def longestCommonPrefix_def)
  from t have "findCompatibleChild ?R (Some [2, 9]) = Some ?C"
    by (simp only: f list.case)
  moreover from t [THEN conjunct1, rule_format, of 0 1]
  have "longestCommonPrefix (Some [2]) (Some [5]) = None" by simp
  ultimately show ?thesis using h1 by simp
qed


end
